theory Spec2Isabelle
  imports Complex_Main
begin

section \<open>Data model (types.ts)\<close>

text \<open>
  JavaScript strings are modelled as \<^typ>\<open>string\<close>; a character stands for one code unit
  below 256, so the accented letters of the Portuguese literals are written \<open>CHR 0xE1\<close> etc.
  Numbers that the program only uses as page counts, indices and timestamps are \<^typ>\<open>int\<close>.
\<close>

record LegalProcess =
  foro :: string
  processo :: string

text \<open>
  \<open>GroupedProcesses\<close> is a plain object used as a dictionary. The list holds its own
  properties in the order in which they were created; \<open>own_keys\<close> below gives the order in
  which \<open>Object.keys\<close>, \<open>Object.entries\<close> and \<open>JSON.stringify\<close> enumerate them.
\<close>

type_synonym GroupedProcesses = "(string \<times> string list) list"

datatype status = Idle | Processing | Completed | Error

record WorkspaceFile =
  wf_id :: string
  wf_name :: string
  wf_blob :: "int list"
  wf_pageCount :: int
  wf_status :: status
  wf_selected :: bool
  wf_results :: "GroupedProcesses option"

record HistoryItem =
  hi_id :: string
  hi_name :: string
  hi_timestamp :: int
  hi_results :: GroupedProcesses


section \<open>Result aggregation (the \<open>forEach\<close> block of App.tsx, lines 237-243 and 298-304)\<close>

text \<open>
  \<open>grouped\<close> starts as the object literal \<open>{}\<close>, whose prototype is \<open>Object.prototype\<close>.
  Reading \<open>grouped[k]\<close> therefore finds an own property, or else a property inherited from
  the prototype (a function, or the prototype object itself for \<open>__proto__\<close>; all truthy),
  or else \<open>undefined\<close>.
\<close>

definition object_prototype_keys :: "string list" where
  "object_prototype_keys =
     [''constructor'', ''__defineGetter__'', ''__defineSetter__'', ''hasOwnProperty'',
      ''__lookupGetter__'', ''__lookupSetter__'', ''isPrototypeOf'', ''propertyIsEnumerable'',
      ''toString'', ''valueOf'', ''__proto__'', ''toLocaleString'']"

datatype js_error = TypeError string

datatype lookup = Own "string list" | Inherited | Undefined

definition grouped_get :: "GroupedProcesses \<Rightarrow> string \<Rightarrow> lookup" where
  "grouped_get grouped k =
     (case map_of grouped k of
        Some arr \<Rightarrow> Own arr
      | None \<Rightarrow> if k \<in> set object_prototype_keys then Inherited else Undefined)"

text \<open>
  One iteration of the callback:
  \<^verbatim>\<open>if (!grouped[p.foro]) grouped[p.foro] = []; grouped[p.foro].push(p.processo);\<close>
  An array is truthy even when empty, so an own entry is never replaced. An inherited value is
  truthy as well, no own property is created, and \<open>push\<close> is not a method of it: the call
  throws a \<open>TypeError\<close>.
\<close>

definition aggregate_step :: "GroupedProcesses \<Rightarrow> LegalProcess \<Rightarrow> js_error + GroupedProcesses" where
  "aggregate_step grouped p =
     (case grouped_get grouped (foro p) of
        Undefined \<Rightarrow> Inr (grouped @ [(foro p, [processo p])])
      | Own arr \<Rightarrow>
          Inr (map (\<lambda>(k, v). if k = foro p then (k, v @ [processo p]) else (k, v)) grouped)
      | Inherited \<Rightarrow> Inl (TypeError ''grouped[p.foro].push is not a function''))"

fun forEach :: "LegalProcess list \<Rightarrow> GroupedProcesses \<Rightarrow> js_error + GroupedProcesses" where
  "forEach [] grouped = Inr grouped"
| "forEach (p # ps) grouped =
     (case aggregate_step grouped p of
        Inl e \<Rightarrow> Inl e
      | Inr grouped' \<Rightarrow> forEach ps grouped')"

definition aggregate :: "LegalProcess list \<Rightarrow> js_error + GroupedProcesses" where
  "aggregate processes = (if processes \<noteq> [] then forEach processes [] else Inr [])"

text \<open>
  Enumeration order of an object's own string keys: the keys that are array indices (canonical
  decimal numerals below \<open>2^32 - 1 = 4294967295\<close>) in ascending numeric order, then all other keys in
  creation order.
\<close>

definition is_digit :: "char \<Rightarrow> bool" where
  "is_digit c = (c \<in> set ''0123456789'')"

definition digit_value :: "char \<Rightarrow> int" where
  "digit_value c =
     (case map_of [(CHR ''0'', 0), (CHR ''1'', 1), (CHR ''2'', 2), (CHR ''3'', 3), (CHR ''4'', 4),
                   (CHR ''5'', 5), (CHR ''6'', 6), (CHR ''7'', 7), (CHR ''8'', 8), (CHR ''9'', 9)] c of
        Some d \<Rightarrow> d
      | None \<Rightarrow> 0)"

definition index_value :: "string \<Rightarrow> int" where
  "index_value k = foldl (\<lambda>n c. 10 * n + digit_value c) 0 k"

definition is_array_index :: "string \<Rightarrow> bool" where
  "is_array_index k =
     (if k \<noteq> [] \<and> list_all is_digit k \<and> (k = ''0'' \<or> hd k \<noteq> CHR ''0'')
      then index_value k < 4294967295 else False)"

definition own_keys :: "GroupedProcesses \<Rightarrow> string list" where
  "own_keys grouped =
     sort_key index_value (filter is_array_index (map fst grouped))
     @ filter (\<lambda>k. \<not> is_array_index k) (map fst grouped)"

text \<open>The order in which the elements of a list occur for the first time.\<close>

fun first_occurrences :: "'a list \<Rightarrow> 'a list" where
  "first_occurrences [] = []"
| "first_occurrences (x # xs) = x # filter (\<lambda>y. y \<noteq> x) (first_occurrences xs)"


text \<open>
  The value sequence of key \<open>k\<close> after the loop has run over \<open>ps\<close> from the object \<open>g\<close>.
\<close>

definition collected :: "GroupedProcesses \<Rightarrow> LegalProcess list \<Rightarrow> string \<Rightarrow> string list" where
  "collected g ps k =
     (case map_of g k of Some v \<Rightarrow> v | None \<Rightarrow> [])
     @ map processo (filter (\<lambda>p. foro p = k) ps)"


section \<open>Splitting a document (services/pdfService.ts, \<open>splitPdf\<close>)\<close>

text \<open>
  A part's blob is modelled by what was copied into it: the zero-based page indices
  \<open>pagesToCopy\<close> of the source document, in copy order.
\<close>

record pdf_part =
  part_name :: string
  part_blob :: "int list"
  part_pageCount :: int

definition digit_char :: "nat \<Rightarrow> char" where
  "digit_char d = ''0123456789'' ! d"

fun show_nat :: "nat \<Rightarrow> string" where
  "show_nat n = (if n < 10 then [digit_char n] else show_nat (n div 10) @ [digit_char (n mod 10)])"

declare show_nat.simps [simp del]

text \<open>An integer inside a template literal.\<close>

definition show_int :: "int \<Rightarrow> string" where
  "show_int i = (if i < 0 then CHR ''-'' # show_nat (nat (- i)) else show_nat (nat i))"

text \<open>
  The \<open>for\<close> loop of \<open>splitPdf\<close>, lines 50-65. \<open>Array.from({length: n}, ...)\<close> is empty
  for \<open>n \<le> 0\<close>. The loop need not terminate, so its result is an option: \<open>None\<close> means that
  the promise never settles.
\<close>

partial_function (option) split_loop ::
  "int \<Rightarrow> int \<Rightarrow> int \<Rightarrow> pdf_part list \<Rightarrow> pdf_part list option" where
  "split_loop totalPages pagesPerPart i parts =
     (if i < totalPages then
        (let endPage = min (i + pagesPerPart) totalPages;
             pagesToCopy = map (\<lambda>index. i + int index) [0..<nat (endPage - i)]
         in split_loop totalPages pagesPerPart (i + pagesPerPart)
              (parts @
               [\<lparr>part_name =
                    ''Parte '' @ show_int (int (length parts) + 1) @ '' (P'' @ [CHR 0xE1] @ ''gs ''
                      @ show_int (i + 1) @ ''-'' @ show_int endPage @ '')'',
                  part_blob = pagesToCopy,
                  part_pageCount = endPage - i\<rparr>]))
      else Some parts)"

declare split_loop.simps [code]

definition splitPdf :: "nat \<Rightarrow> int \<Rightarrow> pdf_part list option" where
  "splitPdf totalPages pagesPerPart = split_loop (int totalPages) pagesPerPart 0 []"

text \<open>The part that the loop produces in its \<open>k\<close>-th iteration (counting from zero).\<close>

definition part_at :: "int \<Rightarrow> int \<Rightarrow> nat \<Rightarrow> pdf_part" where
  "part_at totalPages pagesPerPart k =
     (let i = int k * pagesPerPart; endPage = min (i + pagesPerPart) totalPages
      in \<lparr>part_name =
             ''Parte '' @ show_int (int k + 1) @ '' (P'' @ [CHR 0xE1] @ ''gs ''
               @ show_int (i + 1) @ ''-'' @ show_int endPage @ '')'',
          part_blob = [i..endPage - 1],
          part_pageCount = endPage - i\<rparr>)"

definition part_total :: "int \<Rightarrow> int \<Rightarrow> nat" where
  "part_total totalPages pagesPerPart =
     nat \<lceil>real_of_int totalPages / real_of_int pagesPerPart\<rceil>"


section \<open>Application state (the hooks of \<open>App\<close>, App.tsx lines 9-46)\<close>

datatype tool_mode = Extract | Split | Consolidated | Ocr

datatype sidebar_tab = TabWorkspace | TabHistory

datatype phase = PhaseExtracting | PhaseAnalyzing | PhaseIdle

record progress_state =
  pr_current :: int
  pr_total :: int
  pr_phase :: phase

text \<open>
  \<open>activeProcesses\<close> and \<open>isBatchStopped\<close> are refs, the other fields are React state. The
  keys written to \<open>activeProcesses\<close> are \<open>direct_upload\<close>, \<open>direct_ocr\<close> and UUIDs, so the
  registry is a map; a key that is missing reads as \<open>undefined\<close>, which is falsy.
\<close>

record app =
  toolMode :: tool_mode
  sidebarTab :: sidebar_tab
  loading :: bool
  progress :: progress_state
  error :: "string option"
  groupedData :: "GroupedProcesses option"
  fileName :: "string option"
  history :: "HistoryItem list"
  searchQuery :: string
  isSequentialRunning :: bool
  isBatchStopped :: bool
  workspace :: "WorkspaceFile list"
  activeProcesses :: "string \<rightharpoonup> bool"

definition initial_app :: app where
  "initial_app =
     \<lparr>toolMode = Extract, sidebarTab = TabWorkspace, loading = False,
      progress = \<lparr>pr_current = 0, pr_total = 0, pr_phase = PhaseIdle\<rparr>,
      error = None, groupedData = None, fileName = None, history = [], searchQuery = [],
      isSequentialRunning = False, isBatchStopped = False, workspace = [],
      activeProcesses = Map.empty\<rparr>"

text \<open>The test \<open>activeProcesses.current[k]\<close>.\<close>

definition active :: "app \<Rightarrow> string \<Rightarrow> bool" where
  "active s k = (activeProcesses s k = Some True)"

text \<open>
  An asynchronous function reads React state through the closure of the render in which it
  was created; the values stay as they were then, whatever is set afterwards.
\<close>

record closure =
  cl_isSequentialRunning :: bool
  cl_searchQuery :: string

definition capture :: "app \<Rightarrow> closure" where
  "capture s = \<lparr>cl_isSequentialRunning = isSequentialRunning s, cl_searchQuery = searchQuery s\<rparr>"

text \<open>
  How an awaited promise settles: rejected with a value other than \<open>null\<close> and \<open>undefined\<close>, of
  which the \<open>message\<close> is given (empty when the value has no message or an empty one);
  rejected with \<open>null\<close> or \<open>undefined\<close>; or fulfilled with a value.
\<close>

datatype 'a settled = Rejected string | RejectedNullish | Fulfilled 'a

text \<open>
  Both \<open>catch\<close> blocks read \<open>err.message\<close> inside the test of the flag. For \<open>null\<close> and
  \<open>undefined\<close> that read throws a \<open>TypeError\<close>: the \<open>finally\<close> block still runs, and then the call
  of the asynchronous function ends by throwing instead of returning. Nothing else can throw
  outside the \<open>try\<close> block.
\<close>

definition catch_throws :: "'a settled \<Rightarrow> bool \<Rightarrow> bool" where
  "catch_throws r flag = (case r of RejectedNullish \<Rightarrow> flag | _ \<Rightarrow> False)"

text \<open>
  \<open>String.prototype.trim\<close> for the code units that a \<^typ>\<open>char\<close> can hold: tab, line feed,
  vertical tab, form feed, carriage return, space and no-break space.
\<close>

definition js_whitespace :: "char \<Rightarrow> bool" where
  "js_whitespace c =
     (c \<in> set [CHR 0x09, CHR 0x0A, CHR 0x0B, CHR 0x0C, CHR 0x0D, CHR 0x20, CHR 0xA0])"

definition js_trim :: "string \<Rightarrow> string" where
  "js_trim str = rev (dropWhile js_whitespace (rev (dropWhile js_whitespace str)))"

definition error_message :: "js_error \<Rightarrow> string" where
  "error_message e = (case e of TypeError m \<Rightarrow> m)"


section \<open>\<open>stopAnalysis\<close> (lines 111-121)\<close>

definition stopAnalysis :: "app \<Rightarrow> app" where
  "stopAnalysis s =
     s\<lparr>isBatchStopped := True,
       activeProcesses := (\<lambda>key. map_option (\<lambda>_. False) (activeProcesses s key)),
       workspace :=
         map (\<lambda>f. f\<lparr>wf_status := (if wf_status f = Processing then Idle else wf_status f)\<rparr>)
           (workspace s),
       loading := False,
       isSequentialRunning := False,
       progress := \<lparr>pr_current = 0, pr_total = 0, pr_phase = PhaseIdle\<rparr>,
       error := None\<rparr>"


section \<open>\<open>processFileForExtraction\<close> (lines 214-266)\<close>

text \<open>
  The function is cut at its two \<open>await\<close>s. Each piece runs without interruption; between two
  pieces anything else may run. The piece after the extraction returns, beside the new state,
  the text with which \<open>extractLegalData\<close> is called, or \<open>None\<close> when it is not called.
\<close>

definition pffe_begin :: "string \<Rightarrow> string \<Rightarrow> app \<Rightarrow> app" where
  "pffe_begin name processId s =
     s\<lparr>activeProcesses := (activeProcesses s)(processId \<mapsto> True),
       loading := True,
       fileName := Some name,
       groupedData := None,
       error := None,
       progress := \<lparr>pr_current = 0, pr_total = 0, pr_phase = PhaseExtracting\<rparr>\<rparr>"

definition pffe_onProgress :: "string \<Rightarrow> int \<Rightarrow> int \<Rightarrow> app \<Rightarrow> app" where
  "pffe_onProgress processId cur tot s =
     (if active s processId
      then s\<lparr>progress := \<lparr>pr_current = cur, pr_total = tot, pr_phase = PhaseExtracting\<rparr>\<rparr>
      else s)"

definition pffe_catch :: "string \<Rightarrow> string \<Rightarrow> app \<Rightarrow> app" where
  "pffe_catch processId message s =
     (if active s processId
      then s\<lparr>error := Some (if message \<noteq> [] then message
                              else ''Erro inesperado ao processar o arquivo.'')\<rparr>
      else s)"

definition pffe_finally :: "string \<Rightarrow> app \<Rightarrow> app" where
  "pffe_finally processId s =
     (if active s processId
      then s\<lparr>loading := False,
             progress := \<lparr>pr_current = 0, pr_total = 0, pr_phase = PhaseIdle\<rparr>,
             activeProcesses := (activeProcesses s)(processId \<mapsto> False)\<rparr>
      else s)"

definition pffe_empty_message :: string where
  "pffe_empty_message =
     ''O arquivo parece estar vazio ou n'' @ [CHR 0xE3] @ ''o cont'' @ [CHR 0xE9]
       @ ''m texto extra'' @ [CHR 0xED] @ ''vel.''"

text \<open>
  With \<open>null\<close> or \<open>undefined\<close> the \<open>catch\<close> block throws while it evaluates the argument of
  \<open>setError\<close>, so it writes nothing.
\<close>

definition pffe_after_extract :: "string \<Rightarrow> string settled \<Rightarrow> app \<Rightarrow> app \<times> string option" where
  "pffe_after_extract processId r s =
     (case r of
        Rejected message \<Rightarrow> (pffe_finally processId (pffe_catch processId message s), None)
      | RejectedNullish \<Rightarrow> (pffe_finally processId s, None)
      | Fulfilled rawText \<Rightarrow>
          if \<not> active s processId then (pffe_finally processId s, None)
          else if js_trim rawText = []
            then (pffe_finally processId (pffe_catch processId pffe_empty_message s), None)
          else (s\<lparr>progress := \<lparr>pr_current = 0, pr_total = 0, pr_phase = PhaseAnalyzing\<rparr>\<rparr>,
                Some rawText))"

definition pffe_after_analyze ::
  "closure \<Rightarrow> string \<Rightarrow> string \<Rightarrow> string \<Rightarrow> int \<Rightarrow> LegalProcess list settled \<Rightarrow> app \<Rightarrow> app" where
  "pffe_after_analyze cl name processId uuid now r s =
     (case r of
        Rejected message \<Rightarrow> pffe_finally processId (pffe_catch processId message s)
      | RejectedNullish \<Rightarrow> pffe_finally processId s
      | Fulfilled processes \<Rightarrow>
          if \<not> active s processId then pffe_finally processId s
          else (case aggregate processes of
                  Inl e \<Rightarrow> pffe_finally processId (pffe_catch processId (error_message e) s)
                | Inr grouped \<Rightarrow>
                    pffe_finally processId
                      (s\<lparr>groupedData := Some grouped,
                         history :=
                           \<lparr>hi_id = uuid,
                            hi_name = name @ (if cl_searchQuery cl \<noteq> [] then '' (Filtro)'' else []),
                            hi_timestamp = now,
                            hi_results = grouped\<rparr> # history s\<rparr>)))"


text \<open>Whether the call of \<open>processFileForExtraction\<close> ends by throwing.\<close>

definition pffe_throws :: "string \<Rightarrow> 'a settled \<Rightarrow> app \<Rightarrow> bool" where
  "pffe_throws processId r s = catch_throws r (active s processId)"


section \<open>\<open>analyzeWorkspaceFile\<close> (lines 268-334)\<close>

text \<open>
  Cut at its two \<open>await\<close>s like \<open>processFileForExtraction\<close>. \<open>awf_begin\<close> is the part before
  the \<open>try\<close> (lines 269-280), \<open>awf_onProgress\<close> the progress callback (283-287),
  \<open>awf_after_extract\<close> the part from the first checkpoint to the call of the collaborator
  (290-295), \<open>awf_after_analyze\<close> the part from the second checkpoint on (296-321), of which
  \<open>awf_commit\<close> are the writes of the result (306-321); \<open>awf_catch\<close> and \<open>awf_finally\<close> are the
  \<open>catch\<close> and \<open>finally\<close> blocks (322-333), and \<open>awf_catch_nullish\<close> is the \<open>catch\<close> block for a
  caught \<open>null\<close> or \<open>undefined\<close>, which writes the status and then throws at \<open>err.message\<close>;
  \<open>awf_throws\<close> says whether the call ends by throwing. The process key is the constant \<open>direct_upload\<close> for
  every workspace item. \<open>uuid\<close> and \<open>now\<close> are what \<open>crypto.randomUUID\<close> and \<open>Date.now\<close> return.
\<close>

definition direct_upload :: string where
  "direct_upload = ''direct_upload''"

definition awf_begin :: "WorkspaceFile \<Rightarrow> app \<Rightarrow> app" where
  "awf_begin file s =
     s\<lparr>toolMode := Extract,
       activeProcesses := (activeProcesses s)(direct_upload \<mapsto> True, wf_id file \<mapsto> True),
       fileName := Some (wf_name file),
       loading := True,
       groupedData := None,
       error := None,
       progress := \<lparr>pr_current = 0, pr_total = 0, pr_phase = PhaseExtracting\<rparr>,
       workspace :=
         map (\<lambda>f. if wf_id f = wf_id file then f\<lparr>wf_status := Processing, wf_selected := False\<rparr>
                   else f)
           (workspace s)\<rparr>"

definition awf_onProgress :: "int \<Rightarrow> int \<Rightarrow> app \<Rightarrow> app" where
  "awf_onProgress cur tot s =
     (if active s direct_upload
      then s\<lparr>progress := \<lparr>pr_current = cur, pr_total = tot, pr_phase = PhaseExtracting\<rparr>\<rparr>
      else s)"

definition awf_catch :: "WorkspaceFile \<Rightarrow> string \<Rightarrow> app \<Rightarrow> app" where
  "awf_catch file message s =
     (if active s direct_upload
      then s\<lparr>workspace :=
               map (\<lambda>f. if wf_id f = wf_id file then f\<lparr>wf_status := Error\<rparr> else f) (workspace s),
             error := Some (if message \<noteq> [] then message
                            else ''Erro ao analisar arquivo do workspace.'')\<rparr>
      else s)"

definition awf_catch_nullish :: "WorkspaceFile \<Rightarrow> app \<Rightarrow> app" where
  "awf_catch_nullish file s =
     (if active s direct_upload
      then s\<lparr>workspace :=
               map (\<lambda>f. if wf_id f = wf_id file then f\<lparr>wf_status := Error\<rparr> else f) (workspace s)\<rparr>
      else s)"

definition awf_throws :: "'a settled \<Rightarrow> app \<Rightarrow> bool" where
  "awf_throws r s = catch_throws r (active s direct_upload)"

definition awf_finally :: "closure \<Rightarrow> WorkspaceFile \<Rightarrow> app \<Rightarrow> app" where
  "awf_finally cl file s =
     (let s1 = s\<lparr>activeProcesses :=
                   (activeProcesses s)(direct_upload \<mapsto> False, wf_id file \<mapsto> False)\<rparr>
      in if \<not> cl_isSequentialRunning cl then s1\<lparr>loading := False\<rparr> else s1)"

definition awf_empty_message :: string where
  "awf_empty_message =
     ''N'' @ [CHR 0xE3] @ ''o foi poss'' @ [CHR 0xED]
       @ ''vel extrair texto desta parte do documento.''"

definition awf_after_extract ::
  "closure \<Rightarrow> WorkspaceFile \<Rightarrow> string settled \<Rightarrow> app \<Rightarrow> app \<times> string option" where
  "awf_after_extract cl file r s =
     (case r of
        Rejected message \<Rightarrow> (awf_finally cl file (awf_catch file message s), None)
      | RejectedNullish \<Rightarrow> (awf_finally cl file (awf_catch_nullish file s), None)
      | Fulfilled rawText \<Rightarrow>
          if \<not> active s direct_upload then (awf_finally cl file s, None)
          else if js_trim rawText = []
            then (awf_finally cl file (awf_catch file awf_empty_message s), None)
          else (s\<lparr>progress := \<lparr>pr_current = 0, pr_total = 0, pr_phase = PhaseAnalyzing\<rparr>\<rparr>,
                Some rawText))"

definition awf_commit :: "closure \<Rightarrow> WorkspaceFile \<Rightarrow> string \<Rightarrow> int \<Rightarrow> GroupedProcesses \<Rightarrow> app \<Rightarrow> app" where
  "awf_commit cl file uuid now grouped s =
     s\<lparr>workspace :=
         map (\<lambda>f. if wf_id f = wf_id file
                   then f\<lparr>wf_status := Completed, wf_results := Some grouped, wf_selected := False\<rparr>
                   else f)
           (workspace s),
       groupedData := Some grouped,
       history :=
         \<lparr>hi_id = uuid,
          hi_name = wf_name file @ (if cl_searchQuery cl \<noteq> [] then '' (Filtro)'' else []),
          hi_timestamp = now,
          hi_results = grouped\<rparr> # history s\<rparr>"

definition awf_after_analyze ::
  "closure \<Rightarrow> WorkspaceFile \<Rightarrow> string \<Rightarrow> int \<Rightarrow> LegalProcess list settled \<Rightarrow> app \<Rightarrow> app" where
  "awf_after_analyze cl file uuid now r s =
     (case r of
        Rejected message \<Rightarrow> awf_finally cl file (awf_catch file message s)
      | RejectedNullish \<Rightarrow> awf_finally cl file (awf_catch_nullish file s)
      | Fulfilled processes \<Rightarrow>
          if \<not> active s direct_upload then awf_finally cl file s
          else (case aggregate processes of
                  Inl e \<Rightarrow> awf_finally cl file (awf_catch file (error_message e) s)
                | Inr grouped \<Rightarrow> awf_finally cl file (awf_commit cl file uuid now grouped s)))"


section \<open>Selection (lines 353-373)\<close>

definition toggleFileSelection :: "string \<Rightarrow> app \<Rightarrow> app" where
  "toggleFileSelection fid s =
     s\<lparr>workspace :=
         map (\<lambda>f. if wf_id f = fid
                   then (if wf_status f = Completed then f\<lparr>wf_selected := False\<rparr>
                         else f\<lparr>wf_selected := \<not> wf_selected f\<rparr>)
                   else f)
           (workspace s)\<rparr>"

definition toggleAllSelection :: "app \<Rightarrow> app" where
  "toggleAllSelection s =
     (let selectableFiles = filter (\<lambda>f. wf_status f \<noteq> Completed) (workspace s)
      in if selectableFiles = [] then s
         else
           (let allSelectableSelected = list_all wf_selected selectableFiles
            in s\<lparr>workspace :=
                   map (\<lambda>f. if wf_status f = Completed then f\<lparr>wf_selected := False\<rparr>
                             else f\<lparr>wf_selected := \<not> allSelectableSelected\<rparr>)
                     (workspace s)\<rparr>))"

text \<open>The pending items are the ones that are not completed.\<close>

definition pending :: "app \<Rightarrow> WorkspaceFile list" where
  "pending s = filter (\<lambda>f. wf_status f \<noteq> Completed) (workspace s)"


section \<open>\<open>handleSplit\<close> (lines 392-413)\<close>

text \<open>
  The uploaded file is either a document with a number of pages or something that
  \<open>PDFDocument.load\<close> rejects. \<open>currentFile\<close> and \<open>pagesPerPart\<close> are read through the
  closure; \<open>uuid k\<close> is the result of the \<open>k\<close>-th call of \<open>crypto.randomUUID\<close>. The result is
  \<open>None\<close> when \<open>splitPdf\<close> never returns.
\<close>

datatype pdf_file = Unreadable string | Document nat

definition handleSplit :: "pdf_file option \<Rightarrow> int \<Rightarrow> (nat \<Rightarrow> string) \<Rightarrow> app \<Rightarrow> app option" where
  "handleSplit currentFile pagesPerPart uuid s =
     (case currentFile of
        None \<Rightarrow> Some s
      | Some file \<Rightarrow>
          if pagesPerPart = 0 then Some s
          else
            (case file of
               Unreadable message \<Rightarrow>
                 Some (s\<lparr>error := Some (if message \<noteq> [] then message else ''Erro ao dividir PDF.''),
                         loading := False\<rparr>)
             | Document totalPages \<Rightarrow>
                 (case splitPdf totalPages pagesPerPart of
                    None \<Rightarrow> None
                  | Some parts \<Rightarrow>
                      Some (s\<lparr>error := None,
                              workspace := workspace s @
                                map (\<lambda>(k, part).
                                       \<lparr>wf_id = uuid k, wf_name = part_name part,
                                        wf_blob = part_blob part, wf_pageCount = part_pageCount part,
                                        wf_status = Idle, wf_selected = True, wf_results = None\<rparr>)
                                  (enumerate 0 parts),
                              sidebarTab := TabWorkspace,
                              loading := False\<rparr>))))"


section \<open>The pipelines in flight and \<open>analyzeBatchSequential\<close> (lines 336-351)\<close>

text \<open>
  A call of \<open>analyzeWorkspaceFile\<close> that is suspended at an \<open>await\<close> is a task: the file object it
  was called with, its closure, the \<open>await\<close> it waits at, and, when the batch loop called it, the
  files that the loop has still to visit once the call returns. \<open>sys_started\<close> records the
  files with which \<open>analyzeWorkspaceFile\<close> has been called, in call order.
\<close>

datatype awaiting = AwaitExtract | AwaitAnalyze

record task =
  t_file :: WorkspaceFile
  t_closure :: closure
  t_awaiting :: awaiting
  t_batch :: "WorkspaceFile list option"

record system =
  sys_app :: app
  sys_tasks :: "task list"
  sys_started :: "string list"

definition initial_system :: system where
  "initial_system = \<lparr>sys_app = initial_app, sys_tasks = [], sys_started = []\<rparr>"

definition start_task :: "closure \<Rightarrow> WorkspaceFile list option \<Rightarrow> WorkspaceFile \<Rightarrow> system \<Rightarrow> system" where
  "start_task cl rest file sys =
     sys\<lparr>sys_app := awf_begin file (sys_app sys),
         sys_tasks := sys_tasks sys @
           [\<lparr>t_file = file, t_closure = cl, t_awaiting = AwaitExtract, t_batch = rest\<rparr>],
         sys_started := sys_started sys @ [wf_id file]\<rparr>"

text \<open>The three statements after the loop.\<close>

definition batch_exit :: "app \<Rightarrow> app" where
  "batch_exit s =
     s\<lparr>isSequentialRunning := False,
       loading := False,
       progress := \<lparr>pr_current = 0, pr_total = 0, pr_phase = PhaseIdle\<rparr>\<rparr>"

text \<open>
  The \<open>for\<close> loop from the head of an iteration up to its \<open>await\<close>: it leaves the loop when no
  file remains or the stop flag is set, and otherwise calls \<open>analyzeWorkspaceFile\<close> with the
  next file and waits for it.
\<close>

definition batch_loop :: "closure \<Rightarrow> WorkspaceFile list \<Rightarrow> system \<Rightarrow> system" where
  "batch_loop cl files sys =
     (case files of
        [] \<Rightarrow> sys\<lparr>sys_app := batch_exit (sys_app sys)\<rparr>
      | file # rest \<Rightarrow>
          if isBatchStopped (sys_app sys) then sys\<lparr>sys_app := batch_exit (sys_app sys)\<rparr>
          else start_task cl (Some rest) file sys)"

definition analyzeBatchSequential :: "system \<Rightarrow> system" where
  "analyzeBatchSequential sys =
     (let s = sys_app sys;
          selectedFiles = filter (\<lambda>f. wf_selected f \<and> wf_status f \<noteq> Completed) (workspace s)
      in if selectedFiles = [] \<or> isSequentialRunning s then sys
         else batch_loop (capture s) selectedFiles
                (sys\<lparr>sys_app := s\<lparr>isBatchStopped := False, isSequentialRunning := True\<rparr>\<rparr>))"

text \<open>When a task returns, the batch loop that awaited it goes on.\<close>

definition task_returns :: "nat \<Rightarrow> task \<Rightarrow> app \<Rightarrow> system \<Rightarrow> system" where
  "task_returns n t s' sys =
     (let sys' = sys\<lparr>sys_app := s', sys_tasks := take n (sys_tasks sys) @ drop (Suc n) (sys_tasks sys)\<rparr>
      in case t_batch t of
           None \<Rightarrow> sys'
         | Some rest \<Rightarrow> batch_loop (t_closure t) rest sys')"

text \<open>
  When the call throws, the \<open>await\<close> of the batch loop throws as well: the loop and the three
  statements after it are abandoned. A call from a button just ends.
\<close>

definition task_throws :: "nat \<Rightarrow> app \<Rightarrow> system \<Rightarrow> system" where
  "task_throws n s' sys =
     sys\<lparr>sys_app := s', sys_tasks := take n (sys_tasks sys) @ drop (Suc n) (sys_tasks sys)\<rparr>"

text \<open>
  What can happen next: the user presses a button, or the promise that task number \<open>n\<close> awaits
  settles. The button that calls \<open>analyzeWorkspaceFile\<close> for an item is rendered only while the
  item is neither processing nor completed.
\<close>

datatype event =
    HandleSplit "pdf_file option" int "nat \<Rightarrow> string"
  | ClickAnalyze string
  | ClickBatch
  | ClickStop
  | ToggleFile string
  | ToggleAll
  | OnProgress nat int int
  | ExtractSettles nat "string settled"
  | AnalyzeSettles nat "LegalProcess list settled" string int

definition step :: "event \<Rightarrow> system \<Rightarrow> system option" where
  "step e sys =
     (case e of
        HandleSplit currentFile pagesPerPart uuid \<Rightarrow>
          map_option (\<lambda>s'. sys\<lparr>sys_app := s'\<rparr>) (handleSplit currentFile pagesPerPart uuid (sys_app sys))
      | ClickAnalyze fid \<Rightarrow>
          (case find (\<lambda>f. wf_id f = fid) (workspace (sys_app sys)) of
             None \<Rightarrow> None
           | Some file \<Rightarrow>
               if wf_status file = Processing \<or> wf_status file = Completed then None
               else Some (start_task (capture (sys_app sys)) None file sys))
      | ClickBatch \<Rightarrow> Some (analyzeBatchSequential sys)
      | ClickStop \<Rightarrow> Some (sys\<lparr>sys_app := stopAnalysis (sys_app sys)\<rparr>)
      | ToggleFile fid \<Rightarrow> Some (sys\<lparr>sys_app := toggleFileSelection fid (sys_app sys)\<rparr>)
      | ToggleAll \<Rightarrow> Some (sys\<lparr>sys_app := toggleAllSelection (sys_app sys)\<rparr>)
      | OnProgress n cur tot \<Rightarrow>
          if n < length (sys_tasks sys) \<and> t_awaiting (sys_tasks sys ! n) = AwaitExtract
          then Some (sys\<lparr>sys_app := awf_onProgress cur tot (sys_app sys)\<rparr>)
          else None
      | ExtractSettles n r \<Rightarrow>
          if n < length (sys_tasks sys) \<and> t_awaiting (sys_tasks sys ! n) = AwaitExtract
          then
            (let t = sys_tasks sys ! n
             in case awf_after_extract (t_closure t) (t_file t) r (sys_app sys) of
                  (s', Some rawText) \<Rightarrow>
                    Some (sys\<lparr>sys_app := s',
                              sys_tasks := (sys_tasks sys)[n := t\<lparr>t_awaiting := AwaitAnalyze\<rparr>]\<rparr>)
                | (s', None) \<Rightarrow>
                    Some (if awf_throws r (sys_app sys) then task_throws n s' sys
                          else task_returns n t s' sys))
          else None
      | AnalyzeSettles n r uuid now \<Rightarrow>
          if n < length (sys_tasks sys) \<and> t_awaiting (sys_tasks sys ! n) = AwaitAnalyze
          then
            (let t = sys_tasks sys ! n;
                 s' = awf_after_analyze (t_closure t) (t_file t) uuid now r (sys_app sys)
             in Some (if awf_throws r (sys_app sys) then task_throws n s' sys
                      else task_returns n t s' sys))
          else None)"

fun run :: "event list \<Rightarrow> system \<Rightarrow> system option" where
  "run [] sys = Some sys"
| "run (e # es) sys = (case step e sys of None \<Rightarrow> None | Some sys' \<Rightarrow> run es sys')"

definition reachable :: "system \<Rightarrow> bool" where
  "reachable sys = (\<exists>es. run es initial_system = Some sys)"


section \<open>Loading and saving the history (lines 48-61)\<close>

text \<open>
  \<open>JSON.parse\<close> and \<open>JSON.stringify\<close> belong to the language and are parameters here: \<open>parse\<close>
  gives \<open>None\<close> where \<open>JSON.parse\<close> throws, and otherwise the value, which is an array of
  history items or something else (\<open>null\<close>, a number, a string, an object, an array with an
  element that has no \<open>results\<close>). The saved copy is \<open>None\<close> when \<open>localStorage.getItem\<close> returns
  \<open>null\<close>.
\<close>

datatype json = JsonHistory "HistoryItem list" | JsonOther

text \<open>
  The first effect. The result says with which value \<open>setHistory\<close> is called, if it is.
\<close>

definition load_effect :: "(string \<Rightarrow> json option) \<Rightarrow> string option \<Rightarrow> json option" where
  "load_effect parse savedHistory =
     (case savedHistory of
        None \<Rightarrow> None
      | Some str \<Rightarrow>
          if str = [] then None
          else (case parse str of
                  None \<Rightarrow> None
                | Some v \<Rightarrow> Some v))"

text \<open>The second effect, run after every render in which \<open>history\<close> has changed.\<close>

definition save_effect :: "(HistoryItem list \<Rightarrow> string) \<Rightarrow> app \<Rightarrow> string option" where
  "save_effect stringify s = Some (stringify (history s))"

text \<open>
  Rendering computes \<open>globalForos\<close> (lines 64-74) from the history, again with a plain object
  as dictionary: for every key of every item's results it tests \<open>map[foro]\<close> and then calls
  \<open>map[foro].docs.add\<close>. For a key that names a property inherited from \<open>Object.prototype\<close> the
  test finds the inherited value, which has no \<open>docs\<close>, and the call throws. The aggregation
  never produces such a key, but a saved copy may hold one.
\<close>

definition render_throws :: "HistoryItem list \<Rightarrow> bool" where
  "render_throws items =
     list_ex (\<lambda>item. list_ex (\<lambda>k. k \<in> set object_prototype_keys) (own_keys (hi_results item)))
       items"

text \<open>
  Mounting the component: the first render has the empty history; both effects run, the second
  one with the history of that render. If the first effect has set a value, the component
  renders again. That render calls \<open>history.forEach\<close>, which throws when the value is not an
  array of history items, and it throws for the keys described above; the result is then
  \<open>None\<close>. Otherwise the second effect runs again. The result is the state and the saved copy
  after startup.
\<close>

definition startup ::
  "(string \<Rightarrow> json option) \<Rightarrow> (HistoryItem list \<Rightarrow> string) \<Rightarrow> string option
     \<Rightarrow> (app \<times> string option) option" where
  "startup parse stringify savedHistory =
     (let loaded = load_effect parse savedHistory;
          storage1 = save_effect stringify initial_app
      in case loaded of
           None \<Rightarrow> Some (initial_app, storage1)
         | Some JsonOther \<Rightarrow> None
         | Some (JsonHistory items) \<Rightarrow>
             if render_throws items then None
             else (let s = initial_app\<lparr>history := items\<rparr> in Some (s, save_effect stringify s)))"

text \<open>
  A render after an event: the second effect runs if the history is another one than before.
\<close>

definition rendered :: "(HistoryItem list \<Rightarrow> string) \<Rightarrow> app \<Rightarrow> app \<Rightarrow> string option \<Rightarrow> string option" where
  "rendered stringify s s' storage =
     (if history s' \<noteq> history s then save_effect stringify s' else storage)"


section \<open>Predicates on events and states\<close>

text \<open>The events in which an awaited promise settles or reports progress.\<close>

definition is_settlement :: "event \<Rightarrow> bool" where
  "is_settlement e =
     (case e of
        OnProgress n cur tot \<Rightarrow> True
      | ExtractSettles n r \<Rightarrow> True
      | AnalyzeSettles n r uuid now \<Rightarrow> True
      | _ \<Rightarrow> False)"

text \<open>
  The state in which \<open>stopAnalysis\<close> leaves the application: the stop flag is set, no registry
  entry is true and no item is processing.
\<close>

definition halted :: "app \<Rightarrow> bool" where
  "halted s =
     (isBatchStopped s \<and> list_all (\<lambda>f. wf_status f \<noteq> Processing) (workspace s)
      \<and> (\<forall>key. \<not> active s key))"


text \<open>Every write of the status \<open>completed\<close> writes the results with it.\<close>

definition completed_have_results :: "WorkspaceFile list \<Rightarrow> bool" where
  "completed_have_results ws = list_all (\<lambda>f. wf_status f \<noteq> Completed \<or> wf_results f \<noteq> None) ws"


text \<open>
  The events that do not start a pipeline by themselves: the settlements and the stop button.
\<close>

definition is_passive :: "event \<Rightarrow> bool" where
  "is_passive e = (is_settlement e \<or> e = ClickStop)"

text \<open>
  One batch loop working through its files in order: at most one pipeline is in flight, it was
  called by the loop, and the files started so far followed by the files that the loop has
  still to visit are the \<open>target\<close> list.
\<close>

definition in_order :: "string list \<Rightarrow> system \<Rightarrow> bool" where
  "in_order target sys =
     (case sys_tasks sys of
        [] \<Rightarrow> take (length (sys_started sys)) target = sys_started sys
      | [t] \<Rightarrow>
          (case t_batch t of
             None \<Rightarrow> False
           | Some rest \<Rightarrow> sys_started sys @ map wf_id rest = target)
      | _ \<Rightarrow> False)"


text \<open>
  Whether the batch loop that called the task starts a further item when the task returns.
\<close>

definition loop_goes_on :: "task \<Rightarrow> app \<Rightarrow> bool" where
  "loop_goes_on t s =
     (case t_batch t of
        Some (f # rest) \<Rightarrow> \<not> isBatchStopped s
      | _ \<Rightarrow> False)"


section \<open>Example inputs\<close>

text \<open>
  A twenty-page document split by ten gives two workspace items, with the identifiers \<open>a\<close> and
  \<open>b\<close>.
\<close>

definition demo_uuid :: "nat \<Rightarrow> string" where
  "demo_uuid k = (if k = 0 then ''a'' else ''b'')"

definition demo_split :: event where
  "demo_split = HandleSplit (Some (Document 20)) 10 demo_uuid"

definition demo_text :: string where
  "demo_text = ''Processo 1001821-85.2024.8.26.0291 Foro de Jaboticabal''"

definition demo_processes :: "LegalProcess list" where
  "demo_processes = [\<lparr>foro = ''Jaboticabal'', processo = ''1001821-85.2024.8.26.0291''\<rparr>]"

text \<open>The batch has been started on both items and waits for the text of the first one.\<close>

definition batch_running :: system where
  "batch_running = the (run [demo_split, ClickBatch] initial_system)"

text \<open>The text of a document of two pages without text: a line feed per page.\<close>

definition blank_text :: string where
  "blank_text = [CHR 0x0A, CHR 0x0A]"

text \<open>
  Item \<open>a\<close> is analysed by hand. While its pipeline, past the extraction checkpoint, waits for
  the collaborator, the user presses the stop button and then analyses \<open>b\<close>. After that the
  collaborator's answer for \<open>a\<close> arrives.
\<close>

definition stop_then_other_schedule :: "event list" where
  "stop_then_other_schedule =
     [demo_split, ClickAnalyze ''a'', ExtractSettles 0 (Fulfilled demo_text),
      ClickStop, ClickAnalyze ''b'',
      AnalyzeSettles 0 (Fulfilled demo_processes) ''h1'' 1]"

text \<open>Item \<open>a\<close> is being analysed by hand and waits for its text.\<close>

definition single_running :: system where
  "single_running = the (run [demo_split, ClickAnalyze ''a''] initial_system)"

text \<open>The same, after the user has pressed the stop button.\<close>

definition single_stopped :: system where
  "single_stopped = the (run [demo_split, ClickAnalyze ''a'', ClickStop] initial_system)"

text \<open>The same, after the user has then started the analysis of \<open>b\<close>.\<close>

definition stopped_then_other :: system where
  "stopped_then_other
     = the (run [demo_split, ClickAnalyze ''a'', ClickStop, ClickAnalyze ''b''] initial_system)"

text \<open>
  What \<open>JSON.parse\<close> and \<open>JSON.stringify\<close> give on the few values used below: \<open>JSON.parse\<close>
  returns \<open>null\<close>, an object and a number for the first three strings, the empty array for the
  fourth, and throws on the truncated text \<open>[{id:\<close>.
\<close>

definition demo_parse :: "string \<Rightarrow> json option" where
  "demo_parse str =
     (if str \<in> set [''null'', ''{}'', ''5''] then Some JsonOther
      else if str = ''[]'' then Some (JsonHistory [])
      else None)"

definition demo_stringify :: "HistoryItem list \<Rightarrow> string" where
  "demo_stringify items = (if items = [] then ''[]'' else ''[...]'')"

text \<open>
  The batch is started on both items; while it works on \<open>a\<close>, the user analyses \<open>b\<close> by hand.
  That pipeline completes \<open>b\<close> and clears \<open>direct_upload\<close>, so the pipeline of \<open>a\<close> gives up at
  its checkpoint, and the loop goes on to \<open>b\<close>, which is still in its list. This time the
  collaborator rejects.
\<close>

definition rerun_schedule :: "event list" where
  "rerun_schedule =
     [demo_split, ClickBatch, ClickAnalyze ''b'',
      ExtractSettles 1 (Fulfilled demo_text),
      AnalyzeSettles 1 (Fulfilled demo_processes) ''h1'' 1,
      ExtractSettles 0 (Fulfilled demo_text),
      ExtractSettles 0 (Fulfilled demo_text),
      AnalyzeSettles 0 (Rejected ''429 Too Many Requests'') ''h2'' 2]"

text \<open>
  The batch is started, stopped while it waits for the text of \<open>a\<close>, and started again at once.
  Then the promises of the first pipeline settle.
\<close>

definition restart_schedule :: "event list" where
  "restart_schedule =
     [demo_split, ClickBatch, ClickStop, ClickBatch,
      ExtractSettles 0 (Fulfilled demo_text),
      AnalyzeSettles 0 (Fulfilled demo_processes) ''h1'' 1]"


section \<open>Lemmas about \<open>splitPdf\<close>\<close>

lemma pages_upto: "map (\<lambda>index. i + int index) [0..<nat (e - i)] = [i..e - 1]"
  by (rule nth_equalityI) auto

lemma part_total_alt:
  assumes "1 \<le> p"
  shows "k < part_total T p \<longleftrightarrow> int k * p < T"
proof -
  have "k < part_total T p \<longleftrightarrow> int k < \<lceil>real_of_int T / real_of_int p\<rceil>"
    unfolding part_total_def by linarith
  also have "\<dots> \<longleftrightarrow> real_of_int (int k) < real_of_int T / real_of_int p"
    by (simp only: less_ceiling_iff)
  also have "\<dots> \<longleftrightarrow> real_of_int (int k) * real_of_int p < real_of_int T"
    using assms by (simp add: pos_less_divide_eq)
  also have "\<dots> \<longleftrightarrow> int k * p < T"
    by (metis of_int_less_iff of_int_mult)
  finally show ?thesis .
qed

lemma split_loop_closed:
  assumes "1 \<le> p"
  shows "length parts = k \<Longrightarrow>
    split_loop T p (int k * p) parts = Some (parts @ map (part_at T p) [k..<part_total T p])"
proof (induction "part_total T p - k" arbitrary: k parts)
  case 0
  then have "\<not> k < part_total T p" by simp
  then have "\<not> int k * p < T" using part_total_alt[OF assms] by simp
  moreover have "[k..<part_total T p] = []" using 0 by simp
  ultimately show ?case by (subst split_loop.simps) simp
next
  case (Suc n)
  then have lt: "k < part_total T p" by simp
  then have c: "int k * p < T" using part_total_alt[OF assms, of k] by simp
  let ?new = "part_at T p k"
  have nxt: "int k * p + p = int (Suc k) * p" by (simp add: algebra_simps)
  have "split_loop T p (int k * p) parts = split_loop T p (int k * p + p) (parts @ [?new])"
    by (subst split_loop.simps) (simp add: c Suc.prems Let_def part_at_def pages_upto)
  then have step: "split_loop T p (int k * p) parts
      = split_loop T p (int (Suc k) * p) (parts @ [?new])"
    by (simp only: nxt)
  have "split_loop T p (int (Suc k) * p) (parts @ [?new])
      = Some ((parts @ [?new]) @ map (part_at T p) [Suc k..<part_total T p])"
    using Suc.hyps(1)[of "Suc k" "parts @ [?new]"] Suc.hyps(2) Suc.prems by simp
  moreover have "[k..<part_total T p] = k # [Suc k..<part_total T p]"
    using lt by (simp add: upt_conv_Cons)
  ultimately show ?case using step by simp
qed

lemma splitPdf_closed:
  "1 \<le> p \<Longrightarrow> splitPdf T p = Some (map (part_at (int T) p) [0..<part_total (int T) p])"
  using split_loop_closed[of p "[]" 0 "int T"] by (simp add: splitPdf_def)

text \<open>With a step that is not positive the loop variable never reaches \<open>totalPages\<close>.\<close>

lemma split_loop_diverges:
  assumes "split_loop T p i parts = Some y"
  shows "\<not> (p \<le> 0 \<and> i < T)"
proof (rule split_loop.raw_induct[where P = "\<lambda>T p i parts y. \<not> (p \<le> 0 \<and> i < T)", OF _ assms])
  fix f :: "int \<Rightarrow> int \<Rightarrow> int \<Rightarrow> pdf_part list \<Rightarrow> pdf_part list option"
  fix T p i :: int and parts y :: "pdf_part list"
  assume IH: "\<And>T p i parts y. f T p i parts = Some y \<Longrightarrow> \<not> (p \<le> 0 \<and> i < T)"
  assume body: "(if i < T then
        (let endPage = min (i + p) T;
             pagesToCopy = map (\<lambda>index. i + int index) [0..<nat (endPage - i)]
         in f T p (i + p)
              (parts @
               [\<lparr>part_name =
                    ''Parte '' @ show_int (int (length parts) + 1) @ '' (P'' @ [CHR 0xE1] @ ''gs ''
                      @ show_int (i + 1) @ ''-'' @ show_int endPage @ '')'',
                  part_blob = pagesToCopy,
                  part_pageCount = endPage - i\<rparr>]))
      else Some parts) = Some y"
  show "\<not> (p \<le> 0 \<and> i < T)"
  proof
    assume a: "p \<le> 0 \<and> i < T"
    with body obtain ps where "f T p (i + p) ps = Some y"
      by (simp add: Let_def)
    from IH[OF this] a show False by simp
  qed
qed

lemma part_count_at:
  "part_pageCount (part_at T p k) = min (int k * p + p) T - int k * p"
  by (simp add: part_at_def Let_def)

lemma sum_counts:
  assumes "1 \<le> p" and "0 \<le> T"
  shows "n \<le> part_total T p \<Longrightarrow>
    sum_list (map (\<lambda>k. part_pageCount (part_at T p k)) [0..<n]) = min (int n * p) T"
proof (induction n)
  case 0
  then show ?case using assms by simp
next
  case (Suc n)
  then have "n < part_total T p" by simp
  then have lt: "int n * p < T" using part_total_alt[OF assms(1)] by simp
  have "sum_list (map (\<lambda>k. part_pageCount (part_at T p k)) [0..<n]) = int n * p"
    using Suc lt by simp
  then show ?case by (simp add: part_count_at algebra_simps)
qed

lemma concat_blobs:
  assumes "1 \<le> p" and "0 \<le> T"
  shows "n \<le> part_total T p \<Longrightarrow>
    concat (map (\<lambda>k. part_blob (part_at T p k)) [0..<n]) = [0..min (int n * p) T - 1]"
proof (induction n)
  case 0
  then show ?case using assms by simp
next
  case (Suc n)
  then have "n < part_total T p" by simp
  then have lt: "int n * p < T" using part_total_alt[OF assms(1)] by simp
  have IH: "concat (map (\<lambda>k. part_blob (part_at T p k)) [0..<n]) = [0..int n * p - 1]"
    using Suc lt by simp
  have blob: "part_blob (part_at T p n) = [int n * p..min (int n * p + p) T - 1]"
    by (simp add: part_at_def Let_def)
  have "[0..min (int n * p + p) T - 1]
      = [0..int n * p - 1] @ [int n * p..min (int n * p + p) T - 1]"
    using assms lt by (intro upto_split1) auto
  then show ?case using IH blob by (simp add: algebra_simps)
qed


lemma splitPdf_diverges:
  assumes "pagesPerPart \<le> 0" and "0 < totalPages"
  shows "splitPdf totalPages pagesPerPart = None"
proof (cases "splitPdf totalPages pagesPerPart")
  case None
  then show ?thesis .
next
  case (Some y)
  then have "split_loop (int totalPages) pagesPerPart 0 [] = Some y"
    by (simp add: splitPdf_def)
  from split_loop_diverges[OF this] assms show ?thesis by simp
qed


section \<open>Claims about \<open>splitPdf\<close>\<close>

text \<open>
  Claim C10. For a document of \<open>totalPages\<close> pages and every integer \<open>pagesPerPart \<ge> 1\<close> the
  split terminates and returns exactly \<open>\<lceil>totalPages / pagesPerPart\<rceil>\<close> parts whose page counts
  sum to \<open>totalPages\<close>. The bound is needed: with \<open>pagesPerPart \<le> 0\<close> the loop never ends on a
  document that has a page. The caller, \<open>handleSplit\<close>, returns at once when \<open>pagesPerPart\<close> is
  zero, but passes a negative value on, and then never returns either.
\<close>

theorem splitPdf_terminates_with_ceiling_parts:
  "(1 \<le> pagesPerPart \<longrightarrow>
      (\<exists>parts. splitPdf totalPages pagesPerPart = Some parts
         \<and> int (length parts) = \<lceil>real totalPages / real_of_int pagesPerPart\<rceil>
         \<and> sum_list (map part_pageCount parts) = int totalPages))
   \<and> (pagesPerPart \<le> 0 \<and> 0 < totalPages \<longrightarrow> splitPdf totalPages pagesPerPart = None)
   \<and> handleSplit currentFile 0 uuid s = Some s
   \<and> (pagesPerPart < 0 \<and> 0 < totalPages \<longrightarrow>
        handleSplit (Some (Document totalPages)) pagesPerPart uuid s = None)"
proof (intro conjI impI)
  assume p: "1 \<le> pagesPerPart"
  let ?N = "part_total (int totalPages) pagesPerPart"
  let ?parts = "map (part_at (int totalPages) pagesPerPart) [0..<?N]"
  have nn: "0 \<le> \<lceil>real totalPages / real_of_int pagesPerPart\<rceil>"
  proof -
    have "0 \<le> real totalPages / real_of_int pagesPerPart" using p by simp
    then show ?thesis by (simp only: zero_le_ceiling)
  qed
  have len: "int (length ?parts) = \<lceil>real totalPages / real_of_int pagesPerPart\<rceil>"
    using nn by (simp add: part_total_def)
  have "\<not> ?N < ?N" by simp
  then have ge: "int totalPages \<le> int ?N * pagesPerPart"
    using part_total_alt[OF p, of ?N "int totalPages"] by simp
  have "sum_list (map part_pageCount ?parts) = min (int ?N * pagesPerPart) (int totalPages)"
    using sum_counts[OF p, of "int totalPages" ?N] by (simp add: comp_def)
  then have "sum_list (map part_pageCount ?parts) = int totalPages"
    using ge by simp
  with len splitPdf_closed[OF p, of totalPages]
  show "\<exists>parts. splitPdf totalPages pagesPerPart = Some parts
         \<and> int (length parts) = \<lceil>real totalPages / real_of_int pagesPerPart\<rceil>
         \<and> sum_list (map part_pageCount parts) = int totalPages"
    by blast
next
  assume a: "pagesPerPart \<le> 0 \<and> 0 < totalPages"
  then show "splitPdf totalPages pagesPerPart = None"
    by (simp add: splitPdf_diverges)
next
  show "handleSplit currentFile 0 uuid s = Some s"
    by (simp add: handleSplit_def split: option.splits)
next
  assume a: "pagesPerPart < 0 \<and> 0 < totalPages"
  then have "splitPdf totalPages pagesPerPart = None"
    by (simp add: splitPdf_diverges)
  then show "handleSplit (Some (Document totalPages)) pagesPerPart uuid s = None"
    using a by (simp add: handleSplit_def)
qed

theorem splitPdf_terminates_with_ceiling_parts_witness:
  "(1::int) \<le> 10
   \<and> (\<exists>parts. splitPdf 25 10 = Some parts \<and> int (length parts) = 3
         \<and> sum_list (map part_pageCount parts) = 25)
   \<and> (- 1::int) \<le> 0 \<and> (0::nat) < 25 \<and> splitPdf 25 (- 1) = None
   \<and> handleSplit (Some (Document 25)) 0 demo_uuid initial_app = Some initial_app
   \<and> handleSplit (Some (Document 25)) (- 1) demo_uuid initial_app = None"
proof -
  have "\<lceil>real 25 / real_of_int 10\<rceil> = 3" by (simp add: ceiling_eq_iff)
  then show ?thesis
    using splitPdf_terminates_with_ceiling_parts[where pagesPerPart = 10 and totalPages = 25
        and currentFile = "Some (Document 25)" and uuid = demo_uuid and s = initial_app]
      splitPdf_terminates_with_ceiling_parts[where pagesPerPart = "- 1" and totalPages = 25
        and uuid = demo_uuid and s = initial_app]
    by simp
qed

text \<open>
  Claim C7 (as amended). Splitting with \<open>pagesPerPart \<ge> 1\<close> yields contiguous parts in the
  original page order: the copied pages of all parts, concatenated, are the pages
  \<open>0, \<dots>, totalPages - 1\<close>, and the \<open>k\<close>-th part (from zero) covers the pages
  \<open>k * pagesPerPart + 1\<close> to \<open>min ((k + 1) * pagesPerPart) totalPages\<close> (one-based) and carries
  the Portuguese label \<open>Parte N (Pags A-B)\<close>, the \<open>a\<close> of \<open>Pags\<close> being the accented code unit
  \<open>0xE1\<close>. A 25-page document split by 10 gives three
  parts with page ranges 1-10, 11-20, 21-25 and page counts 10, 10, 5.
\<close>

theorem splitPdf_contiguous_labelled_parts:
  "(1 \<le> pagesPerPart \<longrightarrow>
     (\<exists>parts. splitPdf totalPages pagesPerPart = Some parts
        \<and> concat (map part_blob parts) = [0..int totalPages - 1]
        \<and> (\<forall>k<length parts.
              part_name (parts ! k) =
                ''Parte '' @ show_int (int k + 1) @ '' (P'' @ [CHR 0xE1] @ ''gs ''
                  @ show_int (int k * pagesPerPart + 1) @ ''-''
                  @ show_int (min (int k * pagesPerPart + pagesPerPart) (int totalPages)) @ '')''
            \<and> part_blob (parts ! k) =
                [int k * pagesPerPart..min (int k * pagesPerPart + pagesPerPart) (int totalPages) - 1]
            \<and> part_pageCount (parts ! k) = int (length (part_blob (parts ! k))))))
   \<and> splitPdf 25 10 = Some
       [\<lparr>part_name = ''Parte 1 (P'' @ [CHR 0xE1] @ ''gs 1-10)'',
          part_blob = [0..9], part_pageCount = 10\<rparr>,
        \<lparr>part_name = ''Parte 2 (P'' @ [CHR 0xE1] @ ''gs 11-20)'',
          part_blob = [10..19], part_pageCount = 10\<rparr>,
        \<lparr>part_name = ''Parte 3 (P'' @ [CHR 0xE1] @ ''gs 21-25)'',
          part_blob = [20..24], part_pageCount = 5\<rparr>]"
proof (intro conjI impI)
  assume p: "1 \<le> pagesPerPart"
  let ?T = "int totalPages"
  let ?N = "part_total ?T pagesPerPart"
  let ?parts = "map (part_at ?T pagesPerPart) [0..<?N]"
  have "\<not> ?N < ?N" by simp
  then have ge: "?T \<le> int ?N * pagesPerPart"
    using part_total_alt[OF p, of ?N ?T] by simp
  have "concat (map part_blob ?parts) = [0..min (int ?N * pagesPerPart) ?T - 1]"
    using concat_blobs[OF p, of ?T ?N] by (simp add: comp_def)
  then have cover: "concat (map part_blob ?parts) = [0..?T - 1]"
    using ge by simp
  have each: "\<forall>k<length ?parts.
              part_name (?parts ! k) =
                ''Parte '' @ show_int (int k + 1) @ '' (P'' @ [CHR 0xE1] @ ''gs ''
                  @ show_int (int k * pagesPerPart + 1) @ ''-''
                  @ show_int (min (int k * pagesPerPart + pagesPerPart) ?T) @ '')''
            \<and> part_blob (?parts ! k) =
                [int k * pagesPerPart..min (int k * pagesPerPart + pagesPerPart) ?T - 1]
            \<and> part_pageCount (?parts ! k) = int (length (part_blob (?parts ! k)))"
  proof (intro allI impI)
    fix k assume "k < length ?parts"
    then have k: "k < ?N" by simp
    then have lt: "int k * pagesPerPart < ?T" using part_total_alt[OF p] by simp
    have nth: "?parts ! k = part_at ?T pagesPerPart k" using k by simp
    show "part_name (?parts ! k) =
                ''Parte '' @ show_int (int k + 1) @ '' (P'' @ [CHR 0xE1] @ ''gs ''
                  @ show_int (int k * pagesPerPart + 1) @ ''-''
                  @ show_int (min (int k * pagesPerPart + pagesPerPart) ?T) @ '')''
            \<and> part_blob (?parts ! k) =
                [int k * pagesPerPart..min (int k * pagesPerPart + pagesPerPart) ?T - 1]
            \<and> part_pageCount (?parts ! k) = int (length (part_blob (?parts ! k)))"
      unfolding nth using lt p by (simp add: part_at_def Let_def)
  qed
  from splitPdf_closed[OF p, of totalPages] cover each
  show "\<exists>parts. splitPdf totalPages pagesPerPart = Some parts
        \<and> concat (map part_blob parts) = [0..int totalPages - 1]
        \<and> (\<forall>k<length parts.
              part_name (parts ! k) =
                ''Parte '' @ show_int (int k + 1) @ '' (P'' @ [CHR 0xE1] @ ''gs ''
                  @ show_int (int k * pagesPerPart + 1) @ ''-''
                  @ show_int (min (int k * pagesPerPart + pagesPerPart) (int totalPages)) @ '')''
            \<and> part_blob (parts ! k) =
                [int k * pagesPerPart..min (int k * pagesPerPart + pagesPerPart) (int totalPages) - 1]
            \<and> part_pageCount (parts ! k) = int (length (part_blob (parts ! k))))"
    by blast
next
  show "splitPdf 25 10 = Some
       [\<lparr>part_name = ''Parte 1 (P'' @ [CHR 0xE1] @ ''gs 1-10)'',
          part_blob = [0..9], part_pageCount = 10\<rparr>,
        \<lparr>part_name = ''Parte 2 (P'' @ [CHR 0xE1] @ ''gs 11-20)'',
          part_blob = [10..19], part_pageCount = 10\<rparr>,
        \<lparr>part_name = ''Parte 3 (P'' @ [CHR 0xE1] @ ''gs 21-25)'',
          part_blob = [20..24], part_pageCount = 5\<rparr>]"
    by code_simp
qed

theorem splitPdf_contiguous_labelled_parts_witness:
  "(1::int) \<le> 10
   \<and> (\<exists>parts. splitPdf 25 10 = Some parts
         \<and> concat (map part_blob parts) = [0, 1, 2, 3, 4, 5, 6, 7, 8, 9, 10, 11, 12, 13, 14, 15,
              16, 17, 18, 19, 20, 21, 22, 23, 24]
         \<and> 2 < length parts
         \<and> part_name (parts ! 2) = ''Parte 3 (P'' @ [CHR 0xE1] @ ''gs 21-25)''
         \<and> part_blob (parts ! 2) = [20, 21, 22, 23, 24]
         \<and> part_pageCount (parts ! 2) = 5)"
proof -
  from splitPdf_contiguous_labelled_parts[of 10 25]
  obtain parts where sp: "splitPdf 25 10 = Some parts"
    and cover: "concat (map part_blob parts) = [0..int 25 - 1]"
    and each: "\<forall>k<length parts.
              part_name (parts ! k) =
                ''Parte '' @ show_int (int k + 1) @ '' (P'' @ [CHR 0xE1] @ ''gs ''
                  @ show_int (int k * 10 + 1) @ ''-''
                  @ show_int (min (int k * 10 + 10) (int 25)) @ '')''
            \<and> part_blob (parts ! k) = [int k * 10..min (int k * 10 + 10) (int 25) - 1]
            \<and> part_pageCount (parts ! k) = int (length (part_blob (parts ! k)))"
    and conc: "splitPdf 25 10 = Some
       [\<lparr>part_name = ''Parte 1 (P'' @ [CHR 0xE1] @ ''gs 1-10)'',
          part_blob = [0..9], part_pageCount = 10\<rparr>,
        \<lparr>part_name = ''Parte 2 (P'' @ [CHR 0xE1] @ ''gs 11-20)'',
          part_blob = [10..19], part_pageCount = 10\<rparr>,
        \<lparr>part_name = ''Parte 3 (P'' @ [CHR 0xE1] @ ''gs 21-25)'',
          part_blob = [20..24], part_pageCount = 5\<rparr>]"
    by auto
  from sp conc have len: "length parts = 3" by auto
  then have two: "2 < length parts" by simp
  have s3: "show_int 3 = ''3''" and s21: "show_int 21 = ''21''" and s25: "show_int 25 = ''25''"
    by code_simp+
  have u1: "[0..(24::int)] = [0, 1, 2, 3, 4, 5, 6, 7, 8, 9, 10, 11, 12, 13, 14, 15,
              16, 17, 18, 19, 20, 21, 22, 23, 24]"
    by code_simp
  have u2: "[20..(24::int)] = [20, 21, 22, 23, 24]" by code_simp
  from each two have third: "part_name (parts ! 2) =
                ''Parte '' @ show_int (int 2 + 1) @ '' (P'' @ [CHR 0xE1] @ ''gs ''
                  @ show_int (int 2 * 10 + 1) @ ''-''
                  @ show_int (min (int 2 * 10 + 10) (int 25)) @ '')''
            \<and> part_blob (parts ! 2) = [int 2 * 10..min (int 2 * 10 + 10) (int 25) - 1]
            \<and> part_pageCount (parts ! 2) = int (length (part_blob (parts ! 2)))"
    by blast
  have "part_name (parts ! 2) = ''Parte 3 (P'' @ [CHR 0xE1] @ ''gs 21-25)''"
    using third by (simp add: s3 s21 s25)
  moreover have "part_blob (parts ! 2) = [20, 21, 22, 23, 24]"
    using third by (simp add: u2)
  moreover have "part_pageCount (parts ! 2) = 5"
    using third by (simp add: u2)
  moreover have "concat (map part_blob parts) = [0, 1, 2, 3, 4, 5, 6, 7, 8, 9, 10, 11, 12, 13, 14, 15,
              16, 17, 18, 19, 20, 21, 22, 23, 24]"
    using cover by (simp add: u1)
  ultimately show ?thesis using sp two by simp
qed

text \<open>The label is not the English one that the claim quotes.\<close>

theorem splitPdf_label_counterexample:
  "part_name (hd (the (splitPdf 25 10))) \<noteq> ''Part 1 (Pages 1-10)''"
  by code_simp


section \<open>Lemmas about the aggregation\<close>

lemma map_of_None_keys: "map_of g k = None \<longleftrightarrow> k \<notin> fst ` set g"
  by (simp add: map_of_eq_None_iff)

lemma aggregate_step_new:
  assumes "foro p \<notin> set object_prototype_keys" and "foro p \<notin> fst ` set g"
  shows "aggregate_step g p = Inr (g @ [(foro p, [processo p])])"
proof -
  have "map_of g (foro p) = None" using assms(2) by (simp add: map_of_None_keys)
  then show ?thesis using assms(1) by (simp add: aggregate_step_def grouped_get_def)
qed

lemma aggregate_step_old:
  assumes "foro p \<in> fst ` set g"
  shows "aggregate_step g p =
    Inr (map (\<lambda>(k, v). if k = foro p then (k, v @ [processo p]) else (k, v)) g)"
proof -
  from assms obtain arr where "map_of g (foro p) = Some arr"
    using map_of_None_keys[of g "foro p"] by fastforce
  then show ?thesis by (simp add: aggregate_step_def grouped_get_def)
qed

lemma push_keys:
  "map fst (map (\<lambda>(k, v). if k = a then (k, v @ [x]) else (k, v)) g) = map fst g"
  by (induction g) auto

lemma push_map_of:
  "map_of (map (\<lambda>(k, v). if k = a then (k, v @ [x]) else (k, v)) g) k
     = (if k = a then map_option (\<lambda>v. v @ [x]) (map_of g k) else map_of g k)"
  by (induction g) auto

lemma forEach_characterised:
  assumes "\<forall>p\<in>set ps. foro p \<notin> set object_prototype_keys"
  shows "\<exists>g'. forEach ps g = Inr g'
     \<and> map fst g' = map fst g
          @ filter (\<lambda>k. k \<notin> fst ` set g) (first_occurrences (map foro ps))
     \<and> (\<forall>k\<in>fst ` set g'. map_of g' k = Some (collected g ps k))"
  using assms
proof (induction ps arbitrary: g)
  case Nil
  have "\<forall>k\<in>fst ` set g. map_of g k = Some (collected g [] k)"
  proof
    fix k assume "k \<in> fst ` set g"
    then obtain v where "map_of g k = Some v"
      using map_of_None_keys[of g k] by fastforce
    then show "map_of g k = Some (collected g [] k)" by (simp add: collected_def)
  qed
  then show ?case by simp
next
  case (Cons p ps)
  let ?a = "foro p"
  have ok: "?a \<notin> set object_prototype_keys" and rest: "\<forall>q\<in>set ps. foro q \<notin> set object_prototype_keys"
    using Cons.prems by simp_all
  show ?case
  proof (cases "?a \<in> fst ` set g")
    case True
    let ?g1 = "map (\<lambda>(k, v). if k = ?a then (k, v @ [processo p]) else (k, v)) g"
    have step: "aggregate_step g p = Inr ?g1" using aggregate_step_old[OF True] .
    from Cons.IH[OF rest, of ?g1] obtain g' where
      run: "forEach ps ?g1 = Inr g'"
      and keys: "map fst g' = map fst ?g1
          @ filter (\<lambda>k. k \<notin> fst ` set ?g1) (first_occurrences (map foro ps))"
      and vals: "\<forall>k\<in>fst ` set g'. map_of g' k = Some (collected ?g1 ps k)"
      by blast
    have k1: "map fst ?g1 = map fst g" by (rule push_keys)
    have k1s: "fst ` set ?g1 = fst ` set g" using arg_cong[OF k1, of set] by (simp only: set_map)
    have "filter (\<lambda>k. k \<notin> fst ` set g) (first_occurrences (map foro (p # ps)))
        = filter (\<lambda>k. k \<notin> fst ` set g) (first_occurrences (map foro ps))"
      using True by (auto intro: filter_cong)
    then have keys': "map fst g' = map fst g
          @ filter (\<lambda>k. k \<notin> fst ` set g) (first_occurrences (map foro (p # ps)))"
      using keys k1 k1s by simp
    have c: "\<And>k. k \<in> fst ` set g \<or> k \<noteq> ?a \<Longrightarrow> collected ?g1 ps k = collected g (p # ps) k"
    proof -
      fix k assume "k \<in> fst ` set g \<or> k \<noteq> ?a"
      show "collected ?g1 ps k = collected g (p # ps) k"
      proof (cases "k = ?a")
        case True
        note eq = this
        obtain v where "map_of g k = Some v"
          using \<open>?a \<in> fst ` set g\<close> eq map_of_None_keys[of g k] by fastforce
        then show ?thesis using eq by (simp add: collected_def push_map_of)
      next
        case False
        then show ?thesis by (simp add: collected_def push_map_of)
      qed
    qed
    have vals': "\<forall>k\<in>fst ` set g'. map_of g' k = Some (collected g (p # ps) k)"
    proof
      fix k assume kin: "k \<in> fst ` set g'"
      have "k \<in> fst ` set g \<or> k \<noteq> ?a" using True by blast
      from c[OF this] have "collected ?g1 ps k = collected g (p # ps) k" .
      moreover from vals kin have "map_of g' k = Some (collected ?g1 ps k)" by blast
      ultimately show "map_of g' k = Some (collected g (p # ps) k)" by (simp only:)
    qed
    have fe: "forEach (p # ps) g = Inr g'" using step run by simp
    from fe keys' vals' show ?thesis by blast
  next
    case False
    let ?g1 = "g @ [(?a, [processo p])]"
    have step: "aggregate_step g p = Inr ?g1" using aggregate_step_new[OF ok False] .
    from Cons.IH[OF rest, of ?g1] obtain g' where
      run: "forEach ps ?g1 = Inr g'"
      and keys: "map fst g' = map fst ?g1
          @ filter (\<lambda>k. k \<notin> fst ` set ?g1) (first_occurrences (map foro ps))"
      and vals: "\<forall>k\<in>fst ` set g'. map_of g' k = Some (collected ?g1 ps k)"
      by blast
    have f: "filter (\<lambda>k. k \<notin> fst ` set ?g1) (first_occurrences (map foro ps))
        = filter (\<lambda>k. k \<notin> fst ` set g) (filter (\<lambda>y. y \<noteq> ?a) (first_occurrences (map foro ps)))"
      by (auto intro: filter_cong)
    have keys': "map fst g' = map fst g
          @ filter (\<lambda>k. k \<notin> fst ` set g) (first_occurrences (map foro (p # ps)))"
      using keys f False by simp
    have none: "map_of g ?a = None" using False by (simp add: map_of_None_keys)
    have c: "\<And>k. collected ?g1 ps k = collected g (p # ps) k"
    proof -
      fix k
      show "collected ?g1 ps k = collected g (p # ps) k"
      proof (cases "k = ?a")
        case True
        then show ?thesis using none by (simp add: collected_def map_add_def)
      next
        case False
        then show ?thesis by (simp add: collected_def map_add_def split: option.splits)
      qed
    qed
    have vals': "\<forall>k\<in>fst ` set g'. map_of g' k = Some (collected g (p # ps) k)"
      using vals by (simp only: c)
    have fe: "forEach (p # ps) g = Inr g'" using step run by simp
    from fe keys' vals' show ?thesis by blast
  qed
qed

lemma set_first_occurrences: "set (first_occurrences xs) = set xs"
  by (induction xs) auto

lemma aggregate_characterised:
  assumes "\<forall>p\<in>set ps. foro p \<notin> set object_prototype_keys"
  shows "\<exists>g. aggregate ps = Inr g
     \<and> map fst g = first_occurrences (map foro ps)
     \<and> (\<forall>k\<in>fst ` set g. map_of g k = Some (map processo (filter (\<lambda>p. foro p = k) ps)))"
proof (cases "ps = []")
  case True
  then show ?thesis by (simp add: aggregate_def)
next
  case False
  from forEach_characterised[OF assms, of "[]"] obtain g where
    "forEach ps [] = Inr g"
    "map fst g = first_occurrences (map foro ps)"
    "\<forall>k\<in>fst ` set g. map_of g k = Some (collected [] ps k)"
    by fastforce
  then show ?thesis using False by (simp add: aggregate_def collected_def)
qed

lemma set_own_keys: "set (own_keys g) = fst ` set g"
  by (auto simp: own_keys_def)

lemma filter_none_index:
  "\<forall>k\<in>set ks. \<not> is_array_index k \<Longrightarrow>
     sort_key index_value (filter is_array_index ks) @ filter (\<lambda>k. \<not> is_array_index k) ks = ks"
  by (induction ks) auto


section \<open>Claim about the aggregation\<close>

text \<open>
  Claim C1 (as amended). For every sequence of LegalProcess records none of whose \<open>foro\<close> is
  the name of a property inherited from \<open>Object.prototype\<close>, the aggregation returns a mapping.
  Its keys are enumerated with the array-index-like foros first, in ascending numeric order,
  followed by all other foros in order of first occurrence; so when no foro is an array index the
  key order is the order of first occurrence. The value sequence of each foro is the sub-sequence
  of the \<open>processo\<close> values of that foro in input order (nothing sorted, nothing removed), and the
  empty input yields the empty mapping.
\<close>

theorem aggregate_groups_by_foro:
  assumes "\<forall>p\<in>set processes. foro p \<notin> set object_prototype_keys"
  shows "\<exists>grouped. aggregate processes = Inr grouped
     \<and> own_keys grouped =
         sort_key index_value (filter is_array_index (first_occurrences (map foro processes)))
         @ filter (\<lambda>k. \<not> is_array_index k) (first_occurrences (map foro processes))
     \<and> ((\<forall>p\<in>set processes. \<not> is_array_index (foro p)) \<longrightarrow>
           own_keys grouped = first_occurrences (map foro processes))
     \<and> (\<forall>k\<in>set (own_keys grouped).
           map_of grouped k = Some (map processo (filter (\<lambda>p. foro p = k) processes)))
     \<and> (processes = [] \<longrightarrow> grouped = [])"
proof -
  from aggregate_characterised[OF assms] obtain g where
    agg: "aggregate processes = Inr g"
    and keys: "map fst g = first_occurrences (map foro processes)"
    and vals: "\<forall>k\<in>fst ` set g. map_of g k = Some (map processo (filter (\<lambda>p. foro p = k) processes))"
    by blast
  have order: "own_keys g =
         sort_key index_value (filter is_array_index (first_occurrences (map foro processes)))
         @ filter (\<lambda>k. \<not> is_array_index k) (first_occurrences (map foro processes))"
    by (simp only: own_keys_def keys)
  have plain: "(\<forall>p\<in>set processes. \<not> is_array_index (foro p)) \<longrightarrow>
           own_keys g = first_occurrences (map foro processes)"
  proof
    assume "\<forall>p\<in>set processes. \<not> is_array_index (foro p)"
    then have "\<forall>k\<in>set (first_occurrences (map foro processes)). \<not> is_array_index k"
      by (simp add: set_first_occurrences)
    from filter_none_index[OF this] order
    show "own_keys g = first_occurrences (map foro processes)" by simp
  qed
  have vals': "\<forall>k\<in>set (own_keys g).
           map_of g k = Some (map processo (filter (\<lambda>p. foro p = k) processes))"
    using vals by (simp only: set_own_keys)
  have empty: "processes = [] \<longrightarrow> g = []"
    using agg by (auto simp: aggregate_def)
  from agg order plain vals' empty show ?thesis by blast
qed

theorem aggregate_groups_by_foro_witness:
  "list_all (\<lambda>p. foro p \<notin> set object_prototype_keys)
       [\<lparr>foro = ''Jaboticabal'', processo = ''1001821-85.2024.8.26.0291''\<rparr>,
        \<lparr>foro = ''Taquaritinga'', processo = ''1000011-11.2023.8.26.0619''\<rparr>,
        \<lparr>foro = ''Jaboticabal'', processo = ''1002222-22.2024.8.26.0291''\<rparr>,
        \<lparr>foro = ''Jaboticabal'', processo = ''1001821-85.2024.8.26.0291''\<rparr>]
   \<and> (\<exists>grouped.
        aggregate [\<lparr>foro = ''Jaboticabal'', processo = ''1001821-85.2024.8.26.0291''\<rparr>,
                   \<lparr>foro = ''Taquaritinga'', processo = ''1000011-11.2023.8.26.0619''\<rparr>,
                   \<lparr>foro = ''Jaboticabal'', processo = ''1002222-22.2024.8.26.0291''\<rparr>,
                   \<lparr>foro = ''Jaboticabal'', processo = ''1001821-85.2024.8.26.0291''\<rparr>]
          = Inr grouped
        \<and> own_keys grouped = [''Jaboticabal'', ''Taquaritinga'']
        \<and> map_of grouped ''Jaboticabal''
            = Some [''1001821-85.2024.8.26.0291'', ''1002222-22.2024.8.26.0291'',
                    ''1001821-85.2024.8.26.0291''])"
proof -
  let ?ps = "[\<lparr>foro = ''Jaboticabal'', processo = ''1001821-85.2024.8.26.0291''\<rparr>,
              \<lparr>foro = ''Taquaritinga'', processo = ''1000011-11.2023.8.26.0619''\<rparr>,
              \<lparr>foro = ''Jaboticabal'', processo = ''1002222-22.2024.8.26.0291''\<rparr>,
              \<lparr>foro = ''Jaboticabal'', processo = ''1001821-85.2024.8.26.0291''\<rparr>]"
  have h: "\<forall>p\<in>set ?ps. foro p \<notin> set object_prototype_keys"
    by code_simp
  have noidx: "\<forall>p\<in>set ?ps. \<not> is_array_index (foro p)"
    by code_simp
  have fo: "first_occurrences (map foro ?ps) = [''Jaboticabal'', ''Taquaritinga'']"
    by code_simp
  have sub: "map processo (filter (\<lambda>p. foro p = ''Jaboticabal'') ?ps)
      = [''1001821-85.2024.8.26.0291'', ''1002222-22.2024.8.26.0291'',
         ''1001821-85.2024.8.26.0291'']"
    by code_simp
  from aggregate_groups_by_foro[OF h] obtain grouped where
    agg: "aggregate ?ps = Inr grouped"
    and plain: "(\<forall>p\<in>set ?ps. \<not> is_array_index (foro p)) \<longrightarrow>
           own_keys grouped = first_occurrences (map foro ?ps)"
    and vals: "\<forall>k\<in>set (own_keys grouped).
           map_of grouped k = Some (map processo (filter (\<lambda>p. foro p = k) ?ps))"
    by blast
  from plain noidx have keys: "own_keys grouped = [''Jaboticabal'', ''Taquaritinga'']"
    by (simp only: fo)
  then have "''Jaboticabal'' \<in> set (own_keys grouped)" by simp
  with vals have "map_of grouped ''Jaboticabal''
      = Some (map processo (filter (\<lambda>p. foro p = ''Jaboticabal'') ?ps))"
    by blast
  then have final: "map_of grouped ''Jaboticabal''
      = Some [''1001821-85.2024.8.26.0291'', ''1002222-22.2024.8.26.0291'',
              ''1001821-85.2024.8.26.0291'']"
    by (simp only: sub)
  have "list_all (\<lambda>p. foro p \<notin> set object_prototype_keys) ?ps"
    using h by (simp only: list_all_iff)
  with final agg keys show ?thesis by blast
qed

text \<open>
  The claim as stated fails twice: a foro named like an inherited property makes the loop throw,
  and a foro that is an array index is enumerated before foros that occurred earlier.
\<close>

theorem aggregate_counterexample:
  "aggregate [\<lparr>foro = ''constructor'', processo = ''1001821-85.2024.8.26.0291''\<rparr>]
     = Inl (TypeError ''grouped[p.foro].push is not a function'')
   \<and> map_sum id own_keys
        (aggregate [\<lparr>foro = ''Jaboticabal'', processo = ''1001821-85.2024.8.26.0291''\<rparr>,
                    \<lparr>foro = ''10'', processo = ''1000011-11.2023.8.26.0619''\<rparr>])
       = Inr [''10'', ''Jaboticabal'']
   \<and> first_occurrences
        (map foro [\<lparr>foro = ''Jaboticabal'', processo = ''1001821-85.2024.8.26.0291''\<rparr>,
                   \<lparr>foro = ''10'', processo = ''1000011-11.2023.8.26.0619''\<rparr>])
       = [''Jaboticabal'', ''10'']"
  by code_simp


section \<open>Selection: claim C5\<close>

lemma pending_toggleAllSelection:
  "pending (toggleAllSelection s)
     = map (\<lambda>f. f\<lparr>wf_selected := \<not> list_all wf_selected (pending s)\<rparr>) (pending s)"
proof (cases "pending s = []")
  case True
  then show ?thesis by (simp add: toggleAllSelection_def pending_def)
next
  case False
  have "filter (\<lambda>f. wf_status f \<noteq> Completed)
          (map (\<lambda>f. if wf_status f = Completed then f\<lparr>wf_selected := False\<rparr>
                     else f\<lparr>wf_selected := b\<rparr>) ws)
        = map (\<lambda>f. f\<lparr>wf_selected := b\<rparr>) (filter (\<lambda>f. wf_status f \<noteq> Completed) ws)"
    for b ws
    by (induction ws) auto
  then show ?thesis using False
    by (simp add: toggleAllSelection_def pending_def Let_def)
qed

lemma selected_after_toggle:
  "map wf_selected (pending (toggleAllSelection s))
     = map (\<lambda>_. \<not> list_all wf_selected (pending s)) (pending s)"
  by (simp add: pending_toggleAllSelection comp_def)

lemma list_all_const: "list_all (\<lambda>x. b) xs \<longleftrightarrow> xs = [] \<or> b"
  by (induction xs) auto

lemma all_selected_after_toggle:
  "list_all wf_selected (pending (toggleAllSelection s))
     \<longleftrightarrow> pending s = [] \<or> \<not> list_all wf_selected (pending s)"
proof -
  have "list_all wf_selected (pending (toggleAllSelection s))
      \<longleftrightarrow> list_all (\<lambda>b. b) (map wf_selected (pending (toggleAllSelection s)))"
    by (simp add: list_all_iff)
  also have "\<dots> \<longleftrightarrow> list_all (\<lambda>_. \<not> list_all wf_selected (pending s)) (pending s)"
    by (simp only: selected_after_toggle) (simp add: list_all_iff)
  also have "\<dots> \<longleftrightarrow> pending s = [] \<or> \<not> list_all wf_selected (pending s)"
    by (rule list_all_const)
  finally show ?thesis .
qed

text \<open>
  Claim C5 (as amended). After "select all pending" has been applied twice in succession, every
  pending item carries the same flag: selected if all pending items were selected at the start,
  unselected otherwise. Hence the two toggles return the pending items' flags to their original
  values exactly when these were all equal (all selected or all unselected).
\<close>

theorem toggleAllSelection_twice:
  "map wf_selected (pending (toggleAllSelection (toggleAllSelection s)))
     = map (\<lambda>_. list_all wf_selected (pending s)) (pending s)
   \<and> (map wf_selected (pending (toggleAllSelection (toggleAllSelection s)))
        = map wf_selected (pending s)
      \<longleftrightarrow> list_all wf_selected (pending s) \<or> list_all (\<lambda>f. \<not> wf_selected f) (pending s))"
proof -
  let ?t = "toggleAllSelection s"
  have len: "length (pending ?t) = length (pending s)"
    by (simp add: pending_toggleAllSelection)
  have "map wf_selected (pending (toggleAllSelection ?t))
      = map (\<lambda>_. \<not> list_all wf_selected (pending ?t)) (pending ?t)"
    by (rule selected_after_toggle)
  also have "\<dots> = map (\<lambda>_. \<not> list_all wf_selected (pending ?t)) (pending s)"
    using len by (simp add: map_replicate_const)
  also have "\<dots> = map (\<lambda>_. list_all wf_selected (pending s)) (pending s)"
    by (cases "pending s = []") (simp_all add: all_selected_after_toggle)
  finally have twice: "map wf_selected (pending (toggleAllSelection ?t))
      = map (\<lambda>_. list_all wf_selected (pending s)) (pending s)" .
  have "map (\<lambda>_. list_all wf_selected xs) xs = map wf_selected xs
      \<longleftrightarrow> list_all wf_selected xs \<or> list_all (\<lambda>f. \<not> wf_selected f) xs" for xs :: "WorkspaceFile list"
    by (auto simp: list_all_iff)
  then show ?thesis using twice by simp
qed

text \<open>
  With one pending item selected and another not, the first toggle selects both and the second
  deselects both.
\<close>

theorem toggleAllSelection_twice_counterexample:
  "map wf_selected (pending (toggleAllSelection (toggleAllSelection
      (initial_app\<lparr>workspace :=
         [\<lparr>wf_id = ''a'', wf_name = ''Parte 1 (P'' @ [CHR 0xE1] @ ''gs 1-10)'', wf_blob = [0..9],
            wf_pageCount = 10, wf_status = Idle, wf_selected = True, wf_results = None\<rparr>,
          \<lparr>wf_id = ''b'', wf_name = ''Parte 2 (P'' @ [CHR 0xE1] @ ''gs 11-20)'', wf_blob = [10..19],
            wf_pageCount = 10, wf_status = Idle, wf_selected = False, wf_results = None\<rparr>]\<rparr>))))
     = [False, False]
   \<and> map wf_selected (pending
      (initial_app\<lparr>workspace :=
         [\<lparr>wf_id = ''a'', wf_name = ''Parte 1 (P'' @ [CHR 0xE1] @ ''gs 1-10)'', wf_blob = [0..9],
            wf_pageCount = 10, wf_status = Idle, wf_selected = True, wf_results = None\<rparr>,
          \<lparr>wf_id = ''b'', wf_name = ''Parte 2 (P'' @ [CHR 0xE1] @ ''gs 11-20)'', wf_blob = [10..19],
            wf_pageCount = 10, wf_status = Idle, wf_selected = False, wf_results = None\<rparr>]\<rparr>))
     = [True, False]"
  by (simp add: toggleAllSelection_def pending_def Let_def)


section \<open>Stopping: the state right after \<open>stopAnalysis\<close>\<close>

lemma stopAnalysis_workspace:
  "workspace (stopAnalysis s)
     = map (\<lambda>f. if wf_status f = Processing then f\<lparr>wf_status := Idle\<rparr> else f) (workspace s)"
  by (simp add: stopAnalysis_def)

lemma stopAnalysis_none_processing:
  "\<forall>f\<in>set (workspace (stopAnalysis s)). wf_status f \<noteq> Processing"
  by (auto simp: stopAnalysis_def)

lemma stopAnalysis_registry:
  "activeProcesses (stopAnalysis s) key
     = (if key \<in> dom (activeProcesses s) then Some False else None)"
  by (auto simp: stopAnalysis_def)

lemma stopAnalysis_inactive: "\<not> active (stopAnalysis s) key"
  by (simp add: active_def stopAnalysis_registry)


section \<open>The pieces of \<open>analyzeWorkspaceFile\<close> when the flag is cleared\<close>

lemma awf_catch_inactive: "\<not> active s direct_upload \<Longrightarrow> awf_catch file message s = s"
  by (simp add: awf_catch_def)

lemma awf_catch_nullish_inactive: "\<not> active s direct_upload \<Longrightarrow> awf_catch_nullish file s = s"
  by (simp add: awf_catch_nullish_def)

lemma awf_throws_inactive: "\<not> active s direct_upload \<Longrightarrow> \<not> awf_throws r s"
  by (simp add: awf_throws_def catch_throws_def split: settled.splits)

lemma awf_finally_eq:
  "awf_finally cl file s
     = s\<lparr>activeProcesses := (activeProcesses s)(direct_upload \<mapsto> False, wf_id file \<mapsto> False),
         loading := (if cl_isSequentialRunning cl then loading s else False)\<rparr>"
  by (simp add: awf_finally_def Let_def)

lemma awf_after_analyze_inactive:
  "\<not> active s direct_upload \<Longrightarrow> awf_after_analyze cl file uuid now r s = awf_finally cl file s"
  by (cases r) (simp_all add: awf_after_analyze_def awf_catch_inactive awf_catch_nullish_inactive)

lemma awf_after_extract_inactive:
  "\<not> active s direct_upload \<Longrightarrow> awf_after_extract cl file r s = (awf_finally cl file s, None)"
  by (cases r) (simp_all add: awf_after_extract_def awf_catch_inactive awf_catch_nullish_inactive)

lemma awf_finally_fields:
  "workspace (awf_finally cl file s) = workspace s"
  "history (awf_finally cl file s) = history s"
  "groupedData (awf_finally cl file s) = groupedData s"
  "error (awf_finally cl file s) = error s"
  "progress (awf_finally cl file s) = progress s"
  "isBatchStopped (awf_finally cl file s) = isBatchStopped s"
  "isSequentialRunning (awf_finally cl file s) = isSequentialRunning s"
  by (simp_all add: awf_finally_eq)

lemma awf_finally_inactive:
  "\<forall>key. \<not> active s key \<Longrightarrow> \<not> active (awf_finally cl file s) key"
  by (simp add: awf_finally_eq active_def)


section \<open>Cancellation between the two checkpoints: claim C2\<close>

text \<open>
  When the flag reads false at the analysis checkpoint, the pipeline writes no result: of the
  state only the registry entries \<open>direct_upload\<close> and \<open>file.id\<close> and, outside a batch, \<open>loading\<close>
  are written, by the \<open>finally\<close> block.
\<close>

lemma awf_after_analyze_flag_false:
  assumes "\<not> active s direct_upload"
  shows "awf_after_analyze cl file uuid now r s
           = s\<lparr>activeProcesses := (activeProcesses s)(direct_upload \<mapsto> False, wf_id file \<mapsto> False),
               loading := (if cl_isSequentialRunning cl then loading s else False)\<rparr>
       \<and> workspace (awf_after_analyze cl file uuid now r s) = workspace s
       \<and> history (awf_after_analyze cl file uuid now r s) = history s
       \<and> groupedData (awf_after_analyze cl file uuid now r s) = groupedData s
       \<and> error (awf_after_analyze cl file uuid now r s) = error s
       \<and> progress (awf_after_analyze cl file uuid now r s) = progress s"
  using assms by (simp add: awf_after_analyze_inactive awf_finally_fields awf_finally_eq)

lemma run_defined: "\<not> Option.is_none (run es sys) \<Longrightarrow> run es sys = Some (the (run es sys))"
  by (cases "run es sys") simp_all

text \<open>
  Claim C2 at its failing input. The flag that every pipeline of a workspace item tests is the
  shared key \<open>direct_upload\<close>; the entry \<open>file.id\<close> is written but never read. In
  \<open>stop_then_other_schedule\<close> the pipeline of \<open>a\<close> has passed its extraction checkpoint when the
  stop button clears the flag: \<open>a\<close> is idle again and the history is empty. Starting \<open>b\<close> sets the
  shared key once more, so the cancelled pipeline passes its analysis checkpoint: it turns \<open>a\<close>
  to completed with results and puts an entry at the front of the history.
\<close>

theorem cancelled_task_commits_after_another_start:
  "\<not> Option.is_none (run stop_then_other_schedule initial_system)
   \<and> map (wf_id \<circ> t_file) (sys_tasks (the (run (take 3 stop_then_other_schedule) initial_system)))
       = [''a'']
   \<and> map t_awaiting (sys_tasks (the (run (take 3 stop_then_other_schedule) initial_system)))
       = [AwaitAnalyze]
   \<and> active (sys_app (the (run (take 3 stop_then_other_schedule) initial_system))) direct_upload
   \<and> \<not> active (sys_app (the (run (take 4 stop_then_other_schedule) initial_system))) direct_upload
   \<and> activeProcesses (sys_app (the (run (take 4 stop_then_other_schedule) initial_system))) ''a''
       = Some False
   \<and> map wf_status (workspace (sys_app (the (run (take 4 stop_then_other_schedule) initial_system))))
       = [Idle, Idle]
   \<and> history (sys_app (the (run (take 4 stop_then_other_schedule) initial_system))) = []
   \<and> active (sys_app (the (run (take 5 stop_then_other_schedule) initial_system))) direct_upload
   \<and> map wf_status (workspace (sys_app (the (run stop_then_other_schedule initial_system))))
       = [Completed, Processing]
   \<and> wf_results (workspace (sys_app (the (run stop_then_other_schedule initial_system))) ! 0)
       = Some [(''Jaboticabal'', [''1001821-85.2024.8.26.0291''])]
   \<and> map hi_id (history (sys_app (the (run stop_then_other_schedule initial_system)))) = [''h1'']
   \<and> map hi_results (history (sys_app (the (run stop_then_other_schedule initial_system))))
       = [[(''Jaboticabal'', [''1001821-85.2024.8.26.0291''])]]"
  by code_simp


section \<open>Stopping: what the pipelines in flight do afterwards\<close>

lemma halted_stopAnalysis: "halted (stopAnalysis s)"
  using stopAnalysis_none_processing[of s]
  by (simp add: halted_def stopAnalysis_inactive list_all_iff) (simp add: stopAnalysis_def)

lemma halted_finally: "halted s \<Longrightarrow> halted (awf_finally cl file s)"
  by (simp add: halted_def awf_finally_fields awf_finally_inactive)

lemma halted_after_extract:
  "halted s \<Longrightarrow> awf_after_extract cl file r s = (awf_finally cl file s, None)"
  by (simp add: halted_def awf_after_extract_inactive)

lemma halted_after_analyze:
  "halted s \<Longrightarrow> awf_after_analyze cl file uuid now r s = awf_finally cl file s"
  by (simp add: halted_def awf_after_analyze_inactive)

lemma halted_onProgress: "halted s \<Longrightarrow> awf_onProgress cur tot s = s"
  by (simp add: halted_def awf_onProgress_def)

lemma halted_batch_exit: "halted s \<Longrightarrow> halted (batch_exit s)"
  by (simp add: halted_def batch_exit_def active_def)

lemma batch_loop_halted:
  "halted (sys_app sys) \<Longrightarrow> batch_loop cl files sys = sys\<lparr>sys_app := batch_exit (sys_app sys)\<rparr>"
  by (cases files) (simp_all add: batch_loop_def halted_def)

lemma task_returns_halted:
  assumes "halted s'"
  shows "halted (sys_app (task_returns n t s' sys))
       \<and> sys_started (task_returns n t s' sys) = sys_started sys"
proof (cases "t_batch t")
  case None
  then show ?thesis using assms by (simp add: task_returns_def)
next
  case (Some rest)
  let ?sys' = "sys\<lparr>sys_app := s', sys_tasks := take n (sys_tasks sys) @ drop (Suc n) (sys_tasks sys)\<rparr>"
  have h: "halted (sys_app ?sys')" using assms by simp
  have "task_returns n t s' sys = batch_loop (t_closure t) rest ?sys'"
    using Some by (simp add: task_returns_def)
  also have "\<dots> = ?sys'\<lparr>sys_app := batch_exit (sys_app ?sys')\<rparr>"
    using batch_loop_halted[OF h] .
  finally show ?thesis using assms by (simp add: halted_batch_exit)
qed

lemma halted_no_throw: "halted s \<Longrightarrow> \<not> awf_throws r s"
  by (simp add: halted_def awf_throws_inactive)

lemma step_halted:
  assumes "is_settlement e" and "halted (sys_app sys)" and "step e sys = Some sys'"
  shows "halted (sys_app sys') \<and> sys_started sys' = sys_started sys"
proof (cases e)
  case (OnProgress n cur tot)
  then show ?thesis using assms(2,3)
    by (auto simp: step_def halted_onProgress split: if_splits)
next
  case (ExtractSettles n r)
  let ?t = "sys_tasks sys ! n"
  have fin: "halted (awf_finally (t_closure ?t) (t_file ?t) (sys_app sys))"
    using assms(2) by (rule halted_finally)
  have "sys' = task_returns n ?t (awf_finally (t_closure ?t) (t_file ?t) (sys_app sys)) sys"
    using assms(3) ExtractSettles halted_after_extract[OF assms(2)] halted_no_throw[OF assms(2), of r]
    by (simp add: step_def Let_def split: if_splits)
  then show ?thesis using task_returns_halted[OF fin] by simp
next
  case (AnalyzeSettles n r uuid now)
  let ?t = "sys_tasks sys ! n"
  have fin: "halted (awf_finally (t_closure ?t) (t_file ?t) (sys_app sys))"
    using assms(2) by (rule halted_finally)
  have "sys' = task_returns n ?t (awf_finally (t_closure ?t) (t_file ?t) (sys_app sys)) sys"
    using assms(3) AnalyzeSettles halted_after_analyze[OF assms(2)] halted_no_throw[OF assms(2), of r]
    by (simp add: step_def Let_def split: if_splits)
  then show ?thesis using task_returns_halted[OF fin] by simp
qed (use assms(1) in \<open>simp_all add: is_settlement_def\<close>)

lemma run_halted:
  "list_all is_settlement es \<Longrightarrow> halted (sys_app sys) \<Longrightarrow> run es sys = Some sys'
     \<Longrightarrow> halted (sys_app sys') \<and> sys_started sys' = sys_started sys"
proof (induction es arbitrary: sys)
  case Nil
  then show ?case by simp
next
  case (Cons e es)
  from Cons.prems(3) obtain sys1 where s1: "step e sys = Some sys1" and r: "run es sys1 = Some sys'"
    by (auto split: option.splits)
  from Cons.prems(1) have e: "is_settlement e" and es: "list_all is_settlement es" by simp_all
  from step_halted[OF e Cons.prems(2) s1]
  have h1: "halted (sys_app sys1)" and st: "sys_started sys1 = sys_started sys" by simp_all
  from Cons.IH[OF es h1 r] st show ?case by simp
qed

text \<open>
  Claim C3. Right after \<open>stopAnalysis\<close> no workspace item is processing: every item that was
  processing is idle and the others are as before; every entry of the active-process registry
  is false; \<open>loading\<close>, the progress and the error message are cleared, the stop flag is set and
  the running flag is cleared. It stays so while the pipelines and batch loops that are still in
  flight run on: however their promises settle, no item becomes processing again and no
  further item is started.
\<close>

theorem stopAnalysis_leaves_nothing_processing:
  "workspace (stopAnalysis s)
     = map (\<lambda>f. if wf_status f = Processing then f\<lparr>wf_status := Idle\<rparr> else f) (workspace s)
   \<and> (\<forall>f\<in>set (workspace (stopAnalysis s)). wf_status f \<noteq> Processing)
   \<and> (\<forall>key. activeProcesses (stopAnalysis s) key
         = (if key \<in> dom (activeProcesses s) then Some False else None))
   \<and> \<not> loading (stopAnalysis s)
   \<and> progress (stopAnalysis s) = \<lparr>pr_current = 0, pr_total = 0, pr_phase = PhaseIdle\<rparr>
   \<and> error (stopAnalysis s) = None
   \<and> isBatchStopped (stopAnalysis s)
   \<and> \<not> isSequentialRunning (stopAnalysis s)
   \<and> (list_all is_settlement es
        \<longrightarrow> run es (sys\<lparr>sys_app := stopAnalysis (sys_app sys)\<rparr>) = Some sys'
        \<longrightarrow> list_all (\<lambda>f. wf_status f \<noteq> Processing) (workspace (sys_app sys'))
            \<and> sys_started sys' = sys_started sys)"
proof -
  have later: "list_all is_settlement es
        \<longrightarrow> run es (sys\<lparr>sys_app := stopAnalysis (sys_app sys)\<rparr>) = Some sys'
        \<longrightarrow> list_all (\<lambda>f. wf_status f \<noteq> Processing) (workspace (sys_app sys'))
            \<and> sys_started sys' = sys_started sys"
  proof (intro impI)
    assume es: "list_all is_settlement es"
      and r: "run es (sys\<lparr>sys_app := stopAnalysis (sys_app sys)\<rparr>) = Some sys'"
    have "halted (sys_app (sys\<lparr>sys_app := stopAnalysis (sys_app sys)\<rparr>))"
      by (simp add: halted_stopAnalysis)
    from run_halted[OF es this r]
    show "list_all (\<lambda>f. wf_status f \<noteq> Processing) (workspace (sys_app sys'))
            \<and> sys_started sys' = sys_started sys"
      by (simp add: halted_def)
  qed
  have now: "\<not> loading (stopAnalysis s)
      \<and> progress (stopAnalysis s) = \<lparr>pr_current = 0, pr_total = 0, pr_phase = PhaseIdle\<rparr>
      \<and> error (stopAnalysis s) = None
      \<and> isBatchStopped (stopAnalysis s)
      \<and> \<not> isSequentialRunning (stopAnalysis s)"
    by (simp add: stopAnalysis_def)
  show ?thesis
    using stopAnalysis_workspace[of s] stopAnalysis_none_processing[of s]
      stopAnalysis_registry[of s] now later
    by blast
qed

theorem stopAnalysis_leaves_nothing_processing_witness:
  "map wf_status (workspace (sys_app batch_running)) = [Processing, Idle]
   \<and> map wf_status (workspace (stopAnalysis (sys_app batch_running))) = [Idle, Idle]
   \<and> list_all is_settlement [ExtractSettles 0 (Fulfilled demo_text)]
   \<and> \<not> Option.is_none (run [ExtractSettles 0 (Fulfilled demo_text)]
           (batch_running\<lparr>sys_app := stopAnalysis (sys_app batch_running)\<rparr>))
   \<and> list_all (\<lambda>f. wf_status f \<noteq> Processing)
        (workspace (sys_app (the (run [ExtractSettles 0 (Fulfilled demo_text)]
           (batch_running\<lparr>sys_app := stopAnalysis (sys_app batch_running)\<rparr>)))))
   \<and> sys_started (the (run [ExtractSettles 0 (Fulfilled demo_text)]
           (batch_running\<lparr>sys_app := stopAnalysis (sys_app batch_running)\<rparr>))) = [''a'']"
proof -
  let ?es = "[ExtractSettles 0 (Fulfilled demo_text)]"
  let ?sys = "batch_running\<lparr>sys_app := stopAnalysis (sys_app batch_running)\<rparr>"
  have before: "map wf_status (workspace (sys_app batch_running)) = [Processing, Idle]"
    by code_simp
  have after: "map wf_status (workspace (stopAnalysis (sys_app batch_running))) = [Idle, Idle]"
    by code_simp
  have es: "list_all is_settlement ?es" by code_simp
  have def: "\<not> Option.is_none (run ?es ?sys)" by code_simp
  have started: "sys_started batch_running = [''a'']" by code_simp
  from stopAnalysis_leaves_nothing_processing[of "sys_app batch_running" ?es batch_running
      "the (run ?es ?sys)"] es run_defined[OF def]
  have "list_all (\<lambda>f. wf_status f \<noteq> Processing) (workspace (sys_app (the (run ?es ?sys))))
      \<and> sys_started (the (run ?es ?sys)) = sys_started batch_running"
    by blast
  with before after es def started show ?thesis by simp
qed


section \<open>Empty content: claim C8\<close>

lemma empty_messages_truthy: "awf_empty_message \<noteq> []" "pffe_empty_message \<noteq> []"
  by (simp_all add: awf_empty_message_def pffe_empty_message_def)

lemma awf_after_extract_empty:
  assumes "js_trim rawText = []" and "active s direct_upload"
  shows "awf_after_extract cl file (Fulfilled rawText) s
     = (awf_finally cl file
          (s\<lparr>workspace :=
               map (\<lambda>f. if wf_id f = wf_id file then f\<lparr>wf_status := Error\<rparr> else f) (workspace s),
             error := Some awf_empty_message\<rparr>), None)"
  using assms by (simp add: awf_after_extract_def awf_catch_def empty_messages_truthy)

lemma pffe_after_extract_empty:
  assumes "js_trim rawText = []" and "active s processId"
  shows "pffe_after_extract processId (Fulfilled rawText) s
     = (pffe_finally processId (s\<lparr>error := Some pffe_empty_message\<rparr>), None)"
  using assms by (simp add: pffe_after_extract_def pffe_catch_def empty_messages_truthy)

lemma filter_without_nth:
  assumes "n < length xs" and "\<not> P (xs ! n)"
  shows "filter P (take n xs @ drop (Suc n) xs) = filter P xs"
proof -
  have "filter P xs = filter P (take n xs @ xs ! n # drop (Suc n) xs)"
    using id_take_nth_drop[OF assms(1)] by metis
  then show ?thesis using assms(2) by simp
qed

text \<open>
  The state in which the pipeline of a workspace item ends when its text is blank: with the flag
  set, the item is marked and the message set; without it, nothing but the \<open>finally\<close> block.
\<close>

lemma blank_text_end:
  assumes "js_trim rawText = []"
  shows "snd (awf_after_extract cl item (Fulfilled rawText) s) = None"
    and "isBatchStopped (fst (awf_after_extract cl item (Fulfilled rawText) s)) = isBatchStopped s"
    and "active s direct_upload \<Longrightarrow>
          error (fst (awf_after_extract cl item (Fulfilled rawText) s)) = Some awf_empty_message"
    and "\<not> active s direct_upload \<Longrightarrow>
          error (fst (awf_after_extract cl item (Fulfilled rawText) s)) = error s"
    and "workspace (fst (awf_after_extract cl item (Fulfilled rawText) s))
          = (if active s direct_upload
             then map (\<lambda>f. if wf_id f = wf_id item then f\<lparr>wf_status := Error\<rparr> else f) (workspace s)
             else workspace s)"
proof -
  show "snd (awf_after_extract cl item (Fulfilled rawText) s) = None"
    using assms by (simp add: awf_after_extract_def)
  show "isBatchStopped (fst (awf_after_extract cl item (Fulfilled rawText) s)) = isBatchStopped s"
    using assms by (simp add: awf_after_extract_def awf_finally_fields awf_catch_def)
  show "active s direct_upload \<Longrightarrow>
          error (fst (awf_after_extract cl item (Fulfilled rawText) s)) = Some awf_empty_message"
    by (simp add: awf_after_extract_empty[OF assms] awf_finally_fields)
  show "\<not> active s direct_upload \<Longrightarrow>
          error (fst (awf_after_extract cl item (Fulfilled rawText) s)) = error s"
    by (simp add: awf_after_extract_inactive awf_finally_fields)
  show "workspace (fst (awf_after_extract cl item (Fulfilled rawText) s))
          = (if active s direct_upload
             then map (\<lambda>f. if wf_id f = wf_id item then f\<lparr>wf_status := Error\<rparr> else f) (workspace s)
             else workspace s)"
    by (simp add: awf_after_extract_empty[OF assms] awf_after_extract_inactive awf_finally_fields)
qed

lemma blank_text_step:
  assumes "js_trim rawText = []"
    and "n < length (sys_tasks sys)" and "t_awaiting (sys_tasks sys ! n) = AwaitExtract"
  shows "step (ExtractSettles n (Fulfilled rawText)) sys
     = Some (task_returns n (sys_tasks sys ! n)
         (fst (awf_after_extract (t_closure (sys_tasks sys ! n)) (t_file (sys_tasks sys ! n))
            (Fulfilled rawText) (sys_app sys))) sys)"
proof -
  let ?t = "sys_tasks sys ! n"
  obtain s1 where ae: "awf_after_extract (t_closure ?t) (t_file ?t) (Fulfilled rawText) (sys_app sys)
      = (s1, None)"
    using blank_text_end(1)[OF assms(1), where cl = "t_closure ?t" and item = "t_file ?t" and s = "sys_app sys"]
    by (cases "awf_after_extract (t_closure ?t) (t_file ?t) (Fulfilled rawText) (sys_app sys)") simp
  have nt: "\<not> awf_throws (Fulfilled rawText) (sys_app sys)"
    by (simp add: awf_throws_def catch_throws_def)
  show ?thesis using assms(2,3) ae nt by (simp add: step_def Let_def)
qed

text \<open>
  Claim C8 (as amended). When the extracted text of a per-item analysis task is empty after
  trimming, the task never calls the extraction collaborator, in \<open>analyzeWorkspaceFile\<close> and in
  \<open>processFileForExtraction\<close> alike. What it signals depends on what its flag reads at the
  extraction checkpoint: if it reads true, the task sets the error message to the "empty
  content" message and, for a workspace item, the item's status to error; if it reads false,
  the task leaves the message and the workspace as they are. The message is what the user sees
  after that turn, except when the task was called by a batch loop that goes on to a further
  item: the start of that item clears the message in the same turn, and of the failure only the
  item's status remains.
\<close>

theorem empty_content_aborts_before_collaborator:
  assumes "js_trim rawText = []"
  shows "snd (awf_after_extract cl file (Fulfilled rawText) s) = None
       \<and> snd (pffe_after_extract processId (Fulfilled rawText) s) = None
       \<and> (active s processId \<longrightarrow>
            error (fst (pffe_after_extract processId (Fulfilled rawText) s)) = Some pffe_empty_message)
       \<and> (\<not> active s processId \<longrightarrow>
            error (fst (pffe_after_extract processId (Fulfilled rawText) s)) = error s)
       \<and> (n < length (sys_tasks sys) \<and> t_awaiting (sys_tasks sys ! n) = AwaitExtract \<longrightarrow>
            (\<exists>sys'. step (ExtractSettles n (Fulfilled rawText)) sys = Some sys'
               \<and> filter (\<lambda>t. t_awaiting t = AwaitAnalyze) (sys_tasks sys')
                   = filter (\<lambda>t. t_awaiting t = AwaitAnalyze) (sys_tasks sys)
               \<and> (\<not> loop_goes_on (sys_tasks sys ! n) (sys_app sys)
                    \<and> active (sys_app sys) direct_upload \<longrightarrow>
                     error (sys_app sys') = Some awf_empty_message
                   \<and> workspace (sys_app sys')
                       = map (\<lambda>f. if wf_id f = wf_id (t_file (sys_tasks sys ! n))
                                   then f\<lparr>wf_status := Error\<rparr> else f)
                           (workspace (sys_app sys)))
               \<and> (\<not> loop_goes_on (sys_tasks sys ! n) (sys_app sys)
                    \<and> \<not> active (sys_app sys) direct_upload \<longrightarrow>
                     error (sys_app sys') = error (sys_app sys)
                   \<and> workspace (sys_app sys') = workspace (sys_app sys))
               \<and> (loop_goes_on (sys_tasks sys ! n) (sys_app sys) \<longrightarrow>
                     error (sys_app sys') = None
                   \<and> workspace (sys_app sys')
                       = map (\<lambda>f. if wf_id f = wf_id (hd (the (t_batch (sys_tasks sys ! n))))
                                   then f\<lparr>wf_status := Processing, wf_selected := False\<rparr> else f)
                           (if active (sys_app sys) direct_upload
                            then map (\<lambda>f. if wf_id f = wf_id (t_file (sys_tasks sys ! n))
                                           then f\<lparr>wf_status := Error\<rparr> else f)
                                   (workspace (sys_app sys))
                            else workspace (sys_app sys)))))"
proof (intro conjI impI)
  show "snd (awf_after_extract cl file (Fulfilled rawText) s) = None"
    by (rule blank_text_end(1)[OF assms])
  show "snd (pffe_after_extract processId (Fulfilled rawText) s) = None"
    using assms by (simp add: pffe_after_extract_def)
next
  assume a: "active s processId"
  show "error (fst (pffe_after_extract processId (Fulfilled rawText) s)) = Some pffe_empty_message"
    using a by (simp add: pffe_after_extract_empty[OF assms a] pffe_finally_def)
next
  assume n: "\<not> active s processId"
  show "error (fst (pffe_after_extract processId (Fulfilled rawText) s)) = error s"
    using n by (simp add: pffe_after_extract_def pffe_finally_def)
next
  assume h: "n < length (sys_tasks sys) \<and> t_awaiting (sys_tasks sys ! n) = AwaitExtract"
  let ?t = "sys_tasks sys ! n"
  let ?s = "sys_app sys"
  let ?s1 = "fst (awf_after_extract (t_closure ?t) (t_file ?t) (Fulfilled rawText) ?s)"
  let ?rest = "take n (sys_tasks sys) @ drop (Suc n) (sys_tasks sys)"
  let ?sys' = "task_returns n ?t ?s1 sys"
  let ?A = "\<lambda>t. t_awaiting t = AwaitAnalyze"
  let ?err = "\<lambda>f. if wf_id f = wf_id (t_file ?t) then f\<lparr>wf_status := Error\<rparr> else f"
  note e = blank_text_end[OF assms, where cl = "t_closure ?t" and item = "t_file ?t" and s = ?s]
  have st: "step (ExtractSettles n (Fulfilled rawText)) sys = Some ?sys'"
    using blank_text_step[OF assms] h by simp
  have fr: "filter ?A ?rest = filter ?A (sys_tasks sys)"
    using h by (intro filter_without_nth) simp_all
  have ends: "\<not> loop_goes_on ?t ?s \<Longrightarrow>
      sys_tasks ?sys' = ?rest \<and> error (sys_app ?sys') = error ?s1
      \<and> workspace (sys_app ?sys') = workspace ?s1"
    using e(2)
    by (auto simp: loop_goes_on_def task_returns_def batch_loop_def batch_exit_def
        split: option.splits list.splits)
  have goes: "loop_goes_on ?t ?s \<Longrightarrow>
      sys_tasks ?sys' = ?rest @ [\<lparr>t_file = hd (the (t_batch ?t)), t_closure = t_closure ?t,
          t_awaiting = AwaitExtract, t_batch = Some (tl (the (t_batch ?t)))\<rparr>]
      \<and> error (sys_app ?sys') = None
      \<and> workspace (sys_app ?sys')
          = map (\<lambda>f. if wf_id f = wf_id (hd (the (t_batch ?t)))
                      then f\<lparr>wf_status := Processing, wf_selected := False\<rparr> else f)
              (workspace ?s1)"
    using e(2)
    by (auto simp: loop_goes_on_def task_returns_def batch_loop_def start_task_def awf_begin_def
        split: option.splits list.splits)
  have tasks: "filter ?A (sys_tasks ?sys') = filter ?A (sys_tasks sys)"
    using ends goes fr by (cases "loop_goes_on ?t ?s") simp_all
  have c1: "\<not> loop_goes_on ?t ?s \<and> active ?s direct_upload \<longrightarrow>
        error (sys_app ?sys') = Some awf_empty_message
      \<and> workspace (sys_app ?sys') = map ?err (workspace ?s)"
    using ends e(3,5) by simp
  have c2: "\<not> loop_goes_on ?t ?s \<and> \<not> active ?s direct_upload \<longrightarrow>
        error (sys_app ?sys') = error ?s \<and> workspace (sys_app ?sys') = workspace ?s"
    using ends e(4,5) by simp
  have c3: "loop_goes_on ?t ?s \<longrightarrow>
        error (sys_app ?sys') = None
      \<and> workspace (sys_app ?sys')
          = map (\<lambda>f. if wf_id f = wf_id (hd (the (t_batch ?t)))
                      then f\<lparr>wf_status := Processing, wf_selected := False\<rparr> else f)
              (if active ?s direct_upload then map ?err (workspace ?s) else workspace ?s)"
    using goes e(5) by simp
  from st tasks c1 c2 c3
  show "\<exists>sys'. step (ExtractSettles n (Fulfilled rawText)) sys = Some sys'
               \<and> filter (\<lambda>t. t_awaiting t = AwaitAnalyze) (sys_tasks sys')
                   = filter (\<lambda>t. t_awaiting t = AwaitAnalyze) (sys_tasks sys)
               \<and> (\<not> loop_goes_on (sys_tasks sys ! n) (sys_app sys)
                    \<and> active (sys_app sys) direct_upload \<longrightarrow>
                     error (sys_app sys') = Some awf_empty_message
                   \<and> workspace (sys_app sys')
                       = map (\<lambda>f. if wf_id f = wf_id (t_file (sys_tasks sys ! n))
                                   then f\<lparr>wf_status := Error\<rparr> else f)
                           (workspace (sys_app sys)))
               \<and> (\<not> loop_goes_on (sys_tasks sys ! n) (sys_app sys)
                    \<and> \<not> active (sys_app sys) direct_upload \<longrightarrow>
                     error (sys_app sys') = error (sys_app sys)
                   \<and> workspace (sys_app sys') = workspace (sys_app sys))
               \<and> (loop_goes_on (sys_tasks sys ! n) (sys_app sys) \<longrightarrow>
                     error (sys_app sys') = None
                   \<and> workspace (sys_app sys')
                       = map (\<lambda>f. if wf_id f = wf_id (hd (the (t_batch (sys_tasks sys ! n))))
                                   then f\<lparr>wf_status := Processing, wf_selected := False\<rparr> else f)
                           (if active (sys_app sys) direct_upload
                            then map (\<lambda>f. if wf_id f = wf_id (t_file (sys_tasks sys ! n))
                                           then f\<lparr>wf_status := Error\<rparr> else f)
                                   (workspace (sys_app sys))
                            else workspace (sys_app sys)))"
    by blast
qed


theorem empty_content_aborts_before_collaborator_witness:
  "js_trim blank_text = []
   \<and> active (pffe_begin ''peticao.pdf'' direct_upload initial_app) direct_upload
   \<and> snd (pffe_after_extract direct_upload (Fulfilled blank_text)
        (pffe_begin ''peticao.pdf'' direct_upload initial_app)) = None
   \<and> error (fst (pffe_after_extract direct_upload (Fulfilled blank_text)
        (pffe_begin ''peticao.pdf'' direct_upload initial_app))) = Some pffe_empty_message
   \<and> \<not> active (stopAnalysis (pffe_begin ''peticao.pdf'' direct_upload initial_app)) direct_upload
   \<and> error (fst (pffe_after_extract direct_upload (Fulfilled blank_text)
        (stopAnalysis (pffe_begin ''peticao.pdf'' direct_upload initial_app)))) = None
   \<and> 0 < length (sys_tasks single_running)
   \<and> t_awaiting (sys_tasks single_running ! 0) = AwaitExtract
   \<and> \<not> loop_goes_on (sys_tasks single_running ! 0) (sys_app single_running)
   \<and> active (sys_app single_running) direct_upload
   \<and> error (sys_app (the (step (ExtractSettles 0 (Fulfilled blank_text)) single_running)))
       = Some awf_empty_message
   \<and> map wf_status (workspace (sys_app
         (the (step (ExtractSettles 0 (Fulfilled blank_text)) single_running)))) = [Error, Idle]
   \<and> 0 < length (sys_tasks single_stopped)
   \<and> t_awaiting (sys_tasks single_stopped ! 0) = AwaitExtract
   \<and> \<not> loop_goes_on (sys_tasks single_stopped ! 0) (sys_app single_stopped)
   \<and> \<not> active (sys_app single_stopped) direct_upload
   \<and> error (sys_app (the (step (ExtractSettles 0 (Fulfilled blank_text)) single_stopped))) = None
   \<and> map wf_status (workspace (sys_app
         (the (step (ExtractSettles 0 (Fulfilled blank_text)) single_stopped)))) = [Idle, Idle]
   \<and> 0 < length (sys_tasks stopped_then_other)
   \<and> map (wf_id \<circ> t_file) (sys_tasks stopped_then_other) = [''a'', ''b'']
   \<and> t_awaiting (sys_tasks stopped_then_other ! 0) = AwaitExtract
   \<and> \<not> loop_goes_on (sys_tasks stopped_then_other ! 0) (sys_app stopped_then_other)
   \<and> active (sys_app stopped_then_other) direct_upload
   \<and> error (sys_app (the (step (ExtractSettles 0 (Fulfilled blank_text)) stopped_then_other)))
       = Some awf_empty_message
   \<and> map wf_status (workspace (sys_app
         (the (step (ExtractSettles 0 (Fulfilled blank_text)) stopped_then_other))))
       = [Error, Processing]
   \<and> 0 < length (sys_tasks batch_running)
   \<and> t_awaiting (sys_tasks batch_running ! 0) = AwaitExtract
   \<and> loop_goes_on (sys_tasks batch_running ! 0) (sys_app batch_running)
   \<and> active (sys_app batch_running) direct_upload
   \<and> error (sys_app (the (step (ExtractSettles 0 (Fulfilled blank_text)) batch_running))) = None
   \<and> map wf_status (workspace (sys_app
         (the (step (ExtractSettles 0 (Fulfilled blank_text)) batch_running))))
       = [Error, Processing]
   \<and> filter (\<lambda>t. t_awaiting t = AwaitAnalyze)
        (sys_tasks (the (step (ExtractSettles 0 (Fulfilled blank_text)) batch_running))) = []"
proof -
  let ?p = "pffe_begin ''peticao.pdf'' direct_upload initial_app"
  let ?ev = "ExtractSettles 0 (Fulfilled blank_text)"
  have t: "js_trim blank_text = []" by code_simp
  note T = empty_content_aborts_before_collaborator[OF t]
  have p: "active ?p direct_upload" by code_simp
  have q: "\<not> active (stopAnalysis ?p) direct_upload" by (rule stopAnalysis_inactive)
  have qe: "error (stopAnalysis ?p) = None" by (simp add: stopAnalysis_def)
  from T[where s = ?p and processId = direct_upload] p
  have 1: "snd (pffe_after_extract direct_upload (Fulfilled blank_text) ?p) = None
     \<and> error (fst (pffe_after_extract direct_upload (Fulfilled blank_text) ?p))
         = Some pffe_empty_message"
    by blast
  from T[where s = "stopAnalysis ?p" and processId = direct_upload] q qe
  have 2: "error (fst (pffe_after_extract direct_upload (Fulfilled blank_text) (stopAnalysis ?p)))
      = None"
    by simp
  have h1: "0 < length (sys_tasks single_running)
      \<and> t_awaiting (sys_tasks single_running ! 0) = AwaitExtract
      \<and> \<not> loop_goes_on (sys_tasks single_running ! 0) (sys_app single_running)
      \<and> active (sys_app single_running) direct_upload"
    by code_simp
  have w1: "map wf_status (map (\<lambda>f. if wf_id f = wf_id (t_file (sys_tasks single_running ! 0))
                        then f\<lparr>wf_status := Error\<rparr> else f)
      (workspace (sys_app single_running))) = [Error, Idle]"
    by code_simp
  from T[where n = 0 and sys = single_running] h1
  obtain sys1 where s1: "step ?ev single_running = Some sys1"
      "error (sys_app sys1) = Some awf_empty_message"
      "workspace (sys_app sys1)
        = map (\<lambda>f. if wf_id f = wf_id (t_file (sys_tasks single_running ! 0))
                        then f\<lparr>wf_status := Error\<rparr> else f)
            (workspace (sys_app single_running))"
    by blast
  have r1: "error (sys_app (the (step ?ev single_running))) = Some awf_empty_message
     \<and> map wf_status (workspace (sys_app (the (step ?ev single_running)))) = [Error, Idle]"
    using s1 w1 by simp
  have h2: "0 < length (sys_tasks single_stopped)
      \<and> t_awaiting (sys_tasks single_stopped ! 0) = AwaitExtract
      \<and> \<not> loop_goes_on (sys_tasks single_stopped ! 0) (sys_app single_stopped)
      \<and> \<not> active (sys_app single_stopped) direct_upload"
    by code_simp
  have w2: "error (sys_app single_stopped) = None
      \<and> map wf_status (workspace (sys_app single_stopped)) = [Idle, Idle]"
    by code_simp
  from T[where n = 0 and sys = single_stopped] h2
  obtain sys2 where s2: "step ?ev single_stopped = Some sys2"
      "error (sys_app sys2) = error (sys_app single_stopped)"
      "workspace (sys_app sys2) = workspace (sys_app single_stopped)"
    by blast
  have r2: "error (sys_app (the (step ?ev single_stopped))) = None
     \<and> map wf_status (workspace (sys_app (the (step ?ev single_stopped)))) = [Idle, Idle]"
    using s2 w2 by simp
  have h3: "0 < length (sys_tasks stopped_then_other)
      \<and> map (wf_id \<circ> t_file) (sys_tasks stopped_then_other) = [''a'', ''b'']
      \<and> t_awaiting (sys_tasks stopped_then_other ! 0) = AwaitExtract
      \<and> \<not> loop_goes_on (sys_tasks stopped_then_other ! 0) (sys_app stopped_then_other)
      \<and> active (sys_app stopped_then_other) direct_upload"
    by code_simp
  have w3: "map wf_status (map (\<lambda>f. if wf_id f = wf_id (t_file (sys_tasks stopped_then_other ! 0))
                        then f\<lparr>wf_status := Error\<rparr> else f)
      (workspace (sys_app stopped_then_other))) = [Error, Processing]"
    by code_simp
  from T[where n = 0 and sys = stopped_then_other] h3
  obtain sys3 where s3: "step ?ev stopped_then_other = Some sys3"
      "error (sys_app sys3) = Some awf_empty_message"
      "workspace (sys_app sys3)
        = map (\<lambda>f. if wf_id f = wf_id (t_file (sys_tasks stopped_then_other ! 0))
                        then f\<lparr>wf_status := Error\<rparr> else f)
            (workspace (sys_app stopped_then_other))"
    by blast
  have r3: "error (sys_app (the (step ?ev stopped_then_other))) = Some awf_empty_message
     \<and> map wf_status (workspace (sys_app (the (step ?ev stopped_then_other))))
         = [Error, Processing]"
    using s3 w3 by simp
  have h4: "0 < length (sys_tasks batch_running)
      \<and> t_awaiting (sys_tasks batch_running ! 0) = AwaitExtract
      \<and> loop_goes_on (sys_tasks batch_running ! 0) (sys_app batch_running)
      \<and> active (sys_app batch_running) direct_upload"
    by code_simp
  have w4: "map wf_status
      (map (\<lambda>f. if wf_id f = wf_id (hd (the (t_batch (sys_tasks batch_running ! 0))))
                  then f\<lparr>wf_status := Processing, wf_selected := False\<rparr> else f)
         (if active (sys_app batch_running) direct_upload
          then map (\<lambda>f. if wf_id f = wf_id (t_file (sys_tasks batch_running ! 0))
                         then f\<lparr>wf_status := Error\<rparr> else f)
                 (workspace (sys_app batch_running))
          else workspace (sys_app batch_running))) = [Error, Processing]
      \<and> filter (\<lambda>t. t_awaiting t = AwaitAnalyze) (sys_tasks batch_running) = []"
    by code_simp
  from T[where n = 0 and sys = batch_running] h4
  obtain sys4 where s4: "step ?ev batch_running = Some sys4"
      "filter (\<lambda>t. t_awaiting t = AwaitAnalyze) (sys_tasks sys4)
        = filter (\<lambda>t. t_awaiting t = AwaitAnalyze) (sys_tasks batch_running)"
      "error (sys_app sys4) = None"
      "workspace (sys_app sys4)
        = map (\<lambda>f. if wf_id f = wf_id (hd (the (t_batch (sys_tasks batch_running ! 0))))
                  then f\<lparr>wf_status := Processing, wf_selected := False\<rparr> else f)
         (if active (sys_app batch_running) direct_upload
          then map (\<lambda>f. if wf_id f = wf_id (t_file (sys_tasks batch_running ! 0))
                         then f\<lparr>wf_status := Error\<rparr> else f)
                 (workspace (sys_app batch_running))
          else workspace (sys_app batch_running))"
    by blast
  have r4: "error (sys_app (the (step ?ev batch_running))) = None
     \<and> map wf_status (workspace (sys_app (the (step ?ev batch_running)))) = [Error, Processing]
     \<and> filter (\<lambda>t. t_awaiting t = AwaitAnalyze) (sys_tasks (the (step ?ev batch_running))) = []"
    using s4 w4 by simp
  from t p q 1 2 h1 r1 h2 r2 h3 r3 h4 r4 show ?thesis by blast
qed

text \<open>
  Two runs in which the text is blank and no message is left for the user. In the first the
  user stops the analysis of \<open>a\<close> while its text is being extracted: the task gives up at its
  checkpoint, and neither a message nor an error status is written. In the second the batch
  over \<open>a\<close> and \<open>b\<close> is running: the task sets the message for \<open>a\<close>, and the start of \<open>b\<close> clears
  it in the same turn.
\<close>

theorem empty_content_counterexample:
  "js_trim blank_text = []
   \<and> map (wf_id \<circ> t_file) (sys_tasks single_stopped) = [''a'']
   \<and> map t_awaiting (sys_tasks single_stopped) = [AwaitExtract]
   \<and> \<not> Option.is_none (step (ExtractSettles 0 (Fulfilled blank_text)) single_stopped)
   \<and> sys_tasks (the (step (ExtractSettles 0 (Fulfilled blank_text)) single_stopped)) = []
   \<and> error (sys_app (the (step (ExtractSettles 0 (Fulfilled blank_text)) single_stopped))) = None
   \<and> map wf_status (workspace (sys_app
         (the (step (ExtractSettles 0 (Fulfilled blank_text)) single_stopped)))) = [Idle, Idle]
   \<and> map (wf_id \<circ> t_file) (sys_tasks batch_running) = [''a'']
   \<and> map t_awaiting (sys_tasks batch_running) = [AwaitExtract]
   \<and> active (sys_app batch_running) direct_upload
   \<and> \<not> Option.is_none (step (ExtractSettles 0 (Fulfilled blank_text)) batch_running)
   \<and> error (fst (awf_after_extract (t_closure (sys_tasks batch_running ! 0))
         (t_file (sys_tasks batch_running ! 0)) (Fulfilled blank_text) (sys_app batch_running)))
       = Some awf_empty_message
   \<and> error (sys_app (the (step (ExtractSettles 0 (Fulfilled blank_text)) batch_running))) = None
   \<and> map wf_status (workspace (sys_app
         (the (step (ExtractSettles 0 (Fulfilled blank_text)) batch_running))))
       = [Error, Processing]
   \<and> map (wf_id \<circ> t_file)
        (sys_tasks (the (step (ExtractSettles 0 (Fulfilled blank_text)) batch_running))) = [''b'']"
  by code_simp


section \<open>Status and results: claim C4\<close>

lemma chr_awf_begin:
  "completed_have_results (workspace s) \<Longrightarrow> completed_have_results (workspace (awf_begin file s))"
  by (auto simp: completed_have_results_def awf_begin_def list_all_iff)

lemma chr_awf_catch:
  "completed_have_results (workspace s) \<Longrightarrow> completed_have_results (workspace (awf_catch file m s))"
  by (auto simp: completed_have_results_def awf_catch_def list_all_iff)

lemma chr_awf_catch_nullish:
  "completed_have_results (workspace s) \<Longrightarrow> completed_have_results (workspace (awf_catch_nullish file s))"
  by (auto simp: completed_have_results_def awf_catch_nullish_def list_all_iff)

lemma chr_awf_commit:
  "completed_have_results (workspace s)
     \<Longrightarrow> completed_have_results (workspace (awf_commit cl file uuid now grouped s))"
  by (auto simp: completed_have_results_def awf_commit_def list_all_iff)

lemma chr_awf_finally:
  "completed_have_results (workspace s) \<Longrightarrow> completed_have_results (workspace (awf_finally cl file s))"
  by (simp add: awf_finally_fields)

lemma chr_awf_after_extract:
  "completed_have_results (workspace s)
     \<Longrightarrow> completed_have_results (workspace (fst (awf_after_extract cl file r s)))"
  by (cases r)
    (simp_all add: awf_after_extract_def chr_awf_finally chr_awf_catch chr_awf_catch_nullish)

lemma chr_awf_after_analyze:
  "completed_have_results (workspace s)
     \<Longrightarrow> completed_have_results (workspace (awf_after_analyze cl file uuid now r s))"
  by (cases r)
    (simp_all add: awf_after_analyze_def chr_awf_finally chr_awf_catch chr_awf_catch_nullish
      chr_awf_commit split: sum.splits)

lemma chr_stopAnalysis:
  "completed_have_results (workspace s) \<Longrightarrow> completed_have_results (workspace (stopAnalysis s))"
  by (auto simp: completed_have_results_def stopAnalysis_def list_all_iff)

lemma chr_toggleFileSelection:
  "completed_have_results (workspace s)
     \<Longrightarrow> completed_have_results (workspace (toggleFileSelection fid s))"
  by (auto simp: completed_have_results_def toggleFileSelection_def list_all_iff)

lemma chr_toggleAllSelection:
  "completed_have_results (workspace s) \<Longrightarrow> completed_have_results (workspace (toggleAllSelection s))"
  by (auto simp: completed_have_results_def toggleAllSelection_def Let_def list_all_iff)

lemma chr_handleSplit:
  "completed_have_results (workspace s) \<Longrightarrow> handleSplit currentFile pagesPerPart uuid s = Some s'
     \<Longrightarrow> completed_have_results (workspace s')"
  by (auto simp: completed_have_results_def handleSplit_def list_all_iff
      split: option.splits if_splits pdf_file.splits)

lemma chr_batch_loop:
  "completed_have_results (workspace (sys_app sys))
     \<Longrightarrow> completed_have_results (workspace (sys_app (batch_loop cl files sys)))"
  by (cases files) (simp_all add: batch_loop_def batch_exit_def start_task_def chr_awf_begin)

lemma chr_task_returns:
  "completed_have_results (workspace s')
     \<Longrightarrow> completed_have_results (workspace (sys_app (task_returns n t s' sys)))"
  by (cases "t_batch t") (simp_all add: task_returns_def chr_batch_loop)

lemma chr_task_throws:
  "completed_have_results (workspace s')
     \<Longrightarrow> completed_have_results (workspace (sys_app (task_throws n s' sys)))"
  by (simp add: task_throws_def)

lemma chr_step:
  assumes "completed_have_results (workspace (sys_app sys))" and "step e sys = Some sys'"
  shows "completed_have_results (workspace (sys_app sys'))"
proof (cases e)
  case (HandleSplit currentFile pagesPerPart uuid)
  then show ?thesis using assms chr_handleSplit by (auto simp: step_def)
next
  case (ClickAnalyze fid)
  then show ?thesis using assms
    by (auto simp: step_def start_task_def chr_awf_begin split: option.splits if_splits)
next
  case ClickBatch
  then have "sys' = analyzeBatchSequential sys" using assms(2) by (simp add: step_def)
  then show ?thesis
    using assms(1) chr_batch_loop[of "sys\<lparr>sys_app := (sys_app sys)\<lparr>isBatchStopped := False, isSequentialRunning := True\<rparr>\<rparr>"]
    by (simp add: analyzeBatchSequential_def Let_def)
next
  case ClickStop
  then show ?thesis using assms by (auto simp: step_def chr_stopAnalysis)
next
  case (ToggleFile fid)
  then show ?thesis using assms by (auto simp: step_def chr_toggleFileSelection)
next
  case ToggleAll
  then show ?thesis using assms by (auto simp: step_def chr_toggleAllSelection)
next
  case (OnProgress n cur tot)
  then show ?thesis using assms by (auto simp: step_def awf_onProgress_def split: if_splits)
next
  case (ExtractSettles n r)
  let ?t = "sys_tasks sys ! n"
  obtain s1 call where ae: "awf_after_extract (t_closure ?t) (t_file ?t) r (sys_app sys) = (s1, call)"
    by (cases "awf_after_extract (t_closure ?t) (t_file ?t) r (sys_app sys)")
  have c1: "completed_have_results (workspace s1)"
    using chr_awf_after_extract[OF assms(1), of "t_closure ?t" "t_file ?t" r] ae by simp
  show ?thesis
  proof (cases call)
    case None
    then have "sys' = task_returns n ?t s1 sys \<or> sys' = task_throws n s1 sys"
      using assms(2) ExtractSettles ae by (auto simp: step_def Let_def split: if_splits)
    then show ?thesis using chr_task_returns[OF c1] chr_task_throws[OF c1] by auto
  next
    case (Some rawText)
    then have "sys' = sys\<lparr>sys_app := s1,
        sys_tasks := (sys_tasks sys)[n := ?t\<lparr>t_awaiting := AwaitAnalyze\<rparr>]\<rparr>"
      using assms(2) ExtractSettles ae by (simp add: step_def Let_def split: if_splits)
    then show ?thesis using c1 by simp
  qed
next
  case (AnalyzeSettles n r uuid now)
  let ?t = "sys_tasks sys ! n"
  let ?s' = "awf_after_analyze (t_closure ?t) (t_file ?t) uuid now r (sys_app sys)"
  have "sys' = task_returns n ?t ?s' sys \<or> sys' = task_throws n ?s' sys"
    using assms(2) AnalyzeSettles by (auto simp: step_def Let_def split: if_splits)
  then show ?thesis
    using chr_task_returns[OF chr_awf_after_analyze[OF assms(1)]]
      chr_task_throws[OF chr_awf_after_analyze[OF assms(1)]]
    by auto
qed

lemma chr_run:
  "completed_have_results (workspace (sys_app sys)) \<Longrightarrow> run es sys = Some sys'
     \<Longrightarrow> completed_have_results (workspace (sys_app sys'))"
proof (induction es arbitrary: sys)
  case Nil
  then show ?case by simp
next
  case (Cons e es)
  from Cons.prems(2) obtain sys1 where s1: "step e sys = Some sys1" and r: "run es sys1 = Some sys'"
    by (auto split: option.splits)
  from Cons.IH[OF chr_step[OF Cons.prems(1) s1] r] show ?case .
qed

text \<open>
  One half of the invariant holds in every reachable state: a completed item has results.
\<close>

lemma reachable_completed_have_results:
  "reachable sys \<Longrightarrow> completed_have_results (workspace (sys_app sys))"
proof -
  assume "reachable sys"
  then obtain es where r: "run es initial_system = Some sys" by (auto simp: reachable_def)
  have "completed_have_results (workspace (sys_app initial_system))"
    by (simp add: completed_have_results_def initial_system_def initial_app_def)
  from chr_run[OF this r] show ?thesis .
qed

text \<open>
  Claim C4 at its failing input. The other half of the invariant breaks in a reachable state:
  after \<open>rerun_schedule\<close> the item \<open>b\<close>, completed by the pipeline that the user started and run
  again by the batch loop from its list of files, has the status \<open>error\<close> and still carries the
  results of its completion.
\<close>

theorem error_item_keeps_results:
  "\<not> Option.is_none (run rerun_schedule initial_system)
   \<and> map wf_id (workspace (sys_app (the (run rerun_schedule initial_system)))) = [''a'', ''b'']
   \<and> wf_status (workspace (sys_app (the (run rerun_schedule initial_system))) ! 1) = Error
   \<and> wf_results (workspace (sys_app (the (run rerun_schedule initial_system))) ! 1)
       = Some [(''Jaboticabal'', [''1001821-85.2024.8.26.0291''])]
   \<and> wf_status (workspace (sys_app (the (run (take 5 rerun_schedule) initial_system))) ! 1)
       = Completed
   \<and> sys_started (the (run rerun_schedule initial_system)) = [''a'', ''b'', ''b'']"
  by code_simp


section \<open>The batch runner: claim C6\<close>

text \<open>The guard of \<open>analyzeBatchSequential\<close>.\<close>

lemma analyzeBatchSequential_guard:
  "filter (\<lambda>f. wf_selected f \<and> wf_status f \<noteq> Completed) (workspace (sys_app sys)) = []
     \<or> isSequentialRunning (sys_app sys)
   \<Longrightarrow> analyzeBatchSequential sys = sys"
  by (auto simp: analyzeBatchSequential_def Let_def)

text \<open>
  As long as nothing else is started, one batch does work as described: the items are started in
  the order of the list, one at a time, and not at all once the stop flag is set.
\<close>

lemma take_of_append: "xs @ ys = zs \<Longrightarrow> take (length xs) zs = xs"
  by auto

lemma in_order_batch_loop:
  assumes "sys_tasks sys = []" and "sys_started sys @ map wf_id files = target"
  shows "in_order target (batch_loop cl files sys)"
proof (cases files)
  case Nil
  then show ?thesis using assms by (auto simp: batch_loop_def in_order_def)
next
  case (Cons f rest)
  show ?thesis
  proof (cases "isBatchStopped (sys_app sys)")
    case True
    have "take (length (sys_started sys)) target = sys_started sys"
      using assms(2) by auto
    then show ?thesis using True Cons assms(1) by (simp add: batch_loop_def in_order_def)
  next
    case False
    then show ?thesis using Cons assms
      by (auto simp: batch_loop_def in_order_def start_task_def)
  qed
qed

lemma in_order_start:
  assumes "sys_tasks sys = []"
    and "filter (\<lambda>f. wf_selected f \<and> wf_status f \<noteq> Completed) (workspace (sys_app sys)) = files"
  shows "in_order (sys_started sys @ map wf_id files) (analyzeBatchSequential sys)"
proof (cases "files = [] \<or> isSequentialRunning (sys_app sys)")
  case True
  then have "analyzeBatchSequential sys = sys"
    using assms(2) by (auto simp: analyzeBatchSequential_def Let_def)
  then show ?thesis using assms(1) by (simp add: in_order_def)
next
  case False
  let ?sys = "sys\<lparr>sys_app := (sys_app sys)\<lparr>isBatchStopped := False, isSequentialRunning := True\<rparr>\<rparr>"
  have "analyzeBatchSequential sys = batch_loop (capture (sys_app sys)) files ?sys"
    using False assms(2) by (auto simp: analyzeBatchSequential_def Let_def)
  moreover have "in_order (sys_started sys @ map wf_id files)
      (batch_loop (capture (sys_app sys)) files ?sys)"
    using assms(1) by (intro in_order_batch_loop) simp_all
  ultimately show ?thesis by simp
qed

lemma in_order_task_returns:
  assumes "sys_tasks sys = [t]" and "t_batch t = Some rest"
    and "sys_started sys @ map wf_id rest = target"
  shows "in_order target (task_returns 0 t s' sys)"
proof -
  let ?sys' = "sys\<lparr>sys_app := s', sys_tasks := take 0 (sys_tasks sys) @ drop (Suc 0) (sys_tasks sys)\<rparr>"
  have "task_returns 0 t s' sys = batch_loop (t_closure t) rest ?sys'"
    using assms(2) by (simp add: task_returns_def)
  moreover have "in_order target (batch_loop (t_closure t) rest ?sys')"
    using assms(1,3) by (intro in_order_batch_loop) simp_all
  ultimately show ?thesis by simp
qed

lemma in_order_task_throws:
  assumes "sys_tasks sys = [t]" and "sys_started sys @ map wf_id rest = target"
  shows "in_order target (task_throws 0 s' sys)"
  using assms by (auto simp: task_throws_def in_order_def)

lemma in_order_step:
  assumes "in_order target sys" and "is_passive e" and "step e sys = Some sys'"
  shows "in_order target sys'"
proof (cases e)
  case ClickStop
  then have "sys' = sys\<lparr>sys_app := stopAnalysis (sys_app sys)\<rparr>"
    using assms(3) by (simp add: step_def)
  then show ?thesis using assms(1) by (simp add: in_order_def split: list.splits option.splits)
next
  case (OnProgress n cur tot)
  then have "sys' = sys\<lparr>sys_app := awf_onProgress cur tot (sys_app sys)\<rparr>"
    using assms(3) by (simp add: step_def split: if_splits)
  then show ?thesis using assms(1) by (simp add: in_order_def split: list.splits option.splits)
next
  case (ExtractSettles n r)
  from assms(3) ExtractSettles have n: "n < length (sys_tasks sys)"
    by (simp add: step_def split: if_splits)
  with assms(1) obtain t rest where ts: "sys_tasks sys = [t]" and b: "t_batch t = Some rest"
    and tg: "sys_started sys @ map wf_id rest = target"
    by (auto simp: in_order_def split: list.splits option.splits)
  from n ts have n0: "n = 0" by simp
  obtain s1 call where ae: "awf_after_extract (t_closure t) (t_file t) r (sys_app sys) = (s1, call)"
    by (cases "awf_after_extract (t_closure t) (t_file t) r (sys_app sys)")
  show ?thesis
  proof (cases call)
    case None
    then have "sys' = task_returns 0 t s1 sys \<or> sys' = task_throws 0 s1 sys"
      using assms(3) ExtractSettles ae ts n0 by (auto simp: step_def Let_def split: if_splits)
    then show ?thesis using in_order_task_returns[OF ts b tg] in_order_task_throws[OF ts tg]
      by auto
  next
    case (Some rawText)
    then have "sys' = sys\<lparr>sys_app := s1, sys_tasks := [t\<lparr>t_awaiting := AwaitAnalyze\<rparr>]\<rparr>"
      using assms(3) ExtractSettles ae ts n0 by (simp add: step_def Let_def split: if_splits)
    then show ?thesis using b tg by (simp add: in_order_def)
  qed
next
  case (AnalyzeSettles n r uuid now)
  from assms(3) AnalyzeSettles have n: "n < length (sys_tasks sys)"
    by (simp add: step_def split: if_splits)
  with assms(1) obtain t rest where ts: "sys_tasks sys = [t]" and b: "t_batch t = Some rest"
    and tg: "sys_started sys @ map wf_id rest = target"
    by (auto simp: in_order_def split: list.splits option.splits)
  from n ts have n0: "n = 0" by simp
  let ?s' = "awf_after_analyze (t_closure t) (t_file t) uuid now r (sys_app sys)"
  have "sys' = task_returns 0 t ?s' sys \<or> sys' = task_throws 0 ?s' sys"
    using assms(3) AnalyzeSettles ts n0 by (auto simp: step_def Let_def split: if_splits)
  then show ?thesis using in_order_task_returns[OF ts b tg] in_order_task_throws[OF ts tg]
    by auto
qed (use assms(2) in \<open>simp_all add: is_passive_def is_settlement_def\<close>)

lemma in_order_run:
  "in_order target sys \<Longrightarrow> list_all is_passive es \<Longrightarrow> run es sys = Some sys'
     \<Longrightarrow> in_order target sys'"
proof (induction es arbitrary: sys)
  case Nil
  then show ?case by simp
next
  case (Cons e es)
  from Cons.prems(3) obtain sys1 where s1: "step e sys = Some sys1" and r: "run es sys1 = Some sys'"
    by (auto split: option.splits)
  from Cons.prems(2) have e: "is_passive e" and es: "list_all is_passive es" by simp_all
  from Cons.IH[OF in_order_step[OF Cons.prems(1) e s1] es r] show ?case .
qed

lemma undisturbed_batch_in_listing_order:
  assumes "sys_tasks sys = []" and "list_all is_passive es"
    and "run (ClickBatch # es) sys = Some sys'"
  shows "length (sys_tasks sys') \<le> 1
       \<and> take (length (sys_started sys'))
            (sys_started sys @ map wf_id
               (filter (\<lambda>f. wf_selected f \<and> wf_status f \<noteq> Completed) (workspace (sys_app sys))))
           = sys_started sys'"
proof -
  let ?target = "sys_started sys @ map wf_id
      (filter (\<lambda>f. wf_selected f \<and> wf_status f \<noteq> Completed) (workspace (sys_app sys)))"
  from assms(3) have r: "run es (analyzeBatchSequential sys) = Some sys'"
    by (simp add: step_def)
  have "in_order ?target (analyzeBatchSequential sys)"
    using in_order_start[OF assms(1) refl] .
  from in_order_run[OF this assms(2) r] have io: "in_order ?target sys'" .
  show ?thesis
  proof (cases "sys_tasks sys'")
    case Nil
    then show ?thesis using io by (simp add: in_order_def)
  next
    case (Cons t ts)
    with io have "\<exists>rest :: WorkspaceFile list.
        ts = [] \<and> sys_started sys' @ map wf_id rest = ?target"
      by (auto simp: in_order_def split: list.splits option.splits intro: exI)
    then obtain rest :: "WorkspaceFile list"
      where "ts = []" and "sys_started sys' @ map wf_id rest = ?target"
      by blast
    then show ?thesis using Cons take_of_append[of "sys_started sys'" "map wf_id rest" ?target]
      by simp
  qed
qed

text \<open>
  Claim C6 at its failing input. \<open>stopAnalysis\<close> clears \<open>isSequentialRunning\<close> while the loop it
  stops is still suspended in its \<open>await\<close>, so the guard lets a second batch start beside it,
  and the second batch clears the stop flag. After the fourth event of \<open>restart_schedule\<close> two
  pipelines called by two batch loops are in flight. The stopped pipeline of \<open>a\<close> then finds
  \<open>direct_upload\<close> set again, completes \<open>a\<close>, and the first loop, finding the stop flag
  cleared, calls \<open>analyzeWorkspaceFile\<close> for \<open>b\<close> while the pipeline that the second loop started
  for \<open>b\<close> is still running.
\<close>

theorem stopped_batch_runs_beside_new_batch:
  "\<not> Option.is_none (run restart_schedule initial_system)
   \<and> map (wf_id \<circ> t_file) (sys_tasks (the (run (take 4 restart_schedule) initial_system)))
       = [''a'', ''b'']
   \<and> map (Option.is_none \<circ> t_batch) (sys_tasks (the (run (take 4 restart_schedule) initial_system)))
       = [False, False]
   \<and> isSequentialRunning (sys_app (the (run (take 2 restart_schedule) initial_system)))
   \<and> \<not> isSequentialRunning (sys_app (the (run (take 3 restart_schedule) initial_system)))
   \<and> isBatchStopped (sys_app (the (run (take 3 restart_schedule) initial_system)))
   \<and> \<not> isBatchStopped (sys_app (the (run (take 4 restart_schedule) initial_system)))
   \<and> sys_started (the (run restart_schedule initial_system)) = [''a'', ''b'', ''b'']
   \<and> map (wf_id \<circ> t_file) (sys_tasks (the (run restart_schedule initial_system))) = [''b'', ''b'']
   \<and> map t_awaiting (sys_tasks (the (run restart_schedule initial_system)))
       = [AwaitExtract, AwaitExtract]
   \<and> map wf_status (workspace (sys_app (the (run restart_schedule initial_system))))
       = [Completed, Processing]"
  by code_simp


section \<open>Loading and saving the history: claim C9\<close>

lemma load_effect_nothing:
  "savedHistory = None \<or> savedHistory = Some [] \<or> (\<exists>str. savedHistory = Some str \<and> parse str = None)
     \<Longrightarrow> load_effect parse savedHistory = None"
  by (auto simp: load_effect_def)

text \<open>
  What holds of the claim. If the saved value is absent (or the empty string) or \<open>JSON.parse\<close>
  throws on it, startup completes, the history is the empty collection, and the empty
  collection is what is saved. After a render in which the history has changed the saved copy
  is the serialised new history; so once the saved copy agrees with the history it does so
  after every render.
\<close>

lemma history_load_falls_back_when_absent_or_unparsable:
  "(savedHistory = None \<or> savedHistory = Some []
      \<or> (\<exists>str. savedHistory = Some str \<and> parse str = None)
     \<longrightarrow> startup parse stringify savedHistory = Some (initial_app, Some (stringify []))
         \<and> history initial_app = [])
   \<and> (history s' \<noteq> history s
     \<longrightarrow> rendered stringify s s' storage = Some (stringify (history s')))
   \<and> (storage = Some (stringify (history s))
     \<longrightarrow> rendered stringify s s' storage = Some (stringify (history s')))"
proof (intro conjI impI)
  assume a: "savedHistory = None \<or> savedHistory = Some []
      \<or> (\<exists>str. savedHistory = Some str \<and> parse str = None)"
  have h: "history initial_app = []" by (simp add: initial_app_def)
  from load_effect_nothing[OF a] h
  show "startup parse stringify savedHistory = Some (initial_app, Some (stringify []))"
    by (simp add: startup_def save_effect_def)
  show "history initial_app = []" by (rule h)
next
  assume "history s' \<noteq> history s"
  then show "rendered stringify s s' storage = Some (stringify (history s'))"
    by (simp add: rendered_def save_effect_def)
next
  assume "storage = Some (stringify (history s))"
  then show "rendered stringify s s' storage = Some (stringify (history s'))"
    by (simp add: rendered_def save_effect_def)
qed

text \<open>A saved copy that is an array of history items which render is loaded as it is.\<close>

lemma startup_loads_history:
  assumes "str \<noteq> []" and "parse str = Some (JsonHistory items)" and "\<not> render_throws items"
  shows "startup parse stringify (Some str)
     = Some (initial_app\<lparr>history := items\<rparr>, Some (stringify items))"
  using assms by (simp add: startup_def load_effect_def save_effect_def)

text \<open>The keys that make the render throw are not keys of an aggregation result.\<close>

lemma aggregate_step_keys_not_inherited:
  assumes "aggregate_step g p = Inr g'" and "fst ` set g \<inter> set object_prototype_keys = {}"
  shows "fst ` set g' \<inter> set object_prototype_keys = {}"
proof (cases "grouped_get g (foro p)")
  case (Own arr)
  then have "g' = map (\<lambda>(k, v). if k = foro p then (k, v @ [processo p]) else (k, v)) g"
    using assms(1) by (simp add: aggregate_step_def)
  then have "map fst g' = map fst g" by (simp only: push_keys)
  then have "set (map fst g') = set (map fst g)" by simp
  then show ?thesis using assms(2) by simp
next
  case Inherited
  then show ?thesis using assms(1) by (simp add: aggregate_step_def)
next
  case Undefined
  then have g': "g' = g @ [(foro p, [processo p])]"
    using assms(1) by (simp add: aggregate_step_def)
  have "foro p \<notin> set object_prototype_keys"
    using Undefined by (auto simp: grouped_get_def split: option.splits if_splits)
  then show ?thesis using assms(2) g' by auto
qed

lemma forEach_keys_not_inherited:
  "forEach ps g = Inr g' \<Longrightarrow> fst ` set g \<inter> set object_prototype_keys = {}
     \<Longrightarrow> fst ` set g' \<inter> set object_prototype_keys = {}"
proof (induction ps arbitrary: g)
  case Nil
  then show ?case by simp
next
  case (Cons p ps)
  from Cons.prems(1) obtain g1 where s: "aggregate_step g p = Inr g1" and r: "forEach ps g1 = Inr g'"
    by (cases "aggregate_step g p") simp_all
  from Cons.IH[OF r aggregate_step_keys_not_inherited[OF s Cons.prems(2)]] show ?case .
qed

lemma aggregate_keys_not_inherited:
  assumes "aggregate ps = Inr g"
  shows "fst ` set g \<inter> set object_prototype_keys = {}"
proof (cases "ps = []")
  case True
  then show ?thesis using assms by (auto simp: aggregate_def)
next
  case False
  then have "forEach ps [] = Inr g" using assms by (simp add: aggregate_def)
  from forEach_keys_not_inherited[OF this] show ?thesis by simp
qed

text \<open>
  Claim C9 at its failing inputs. The claim asks that a corrupt saved copy be tolerated. The
  \<open>try\<close> block of the first effect catches what \<open>JSON.parse\<close> throws, and nothing else: a saved
  copy on which \<open>JSON.parse\<close> succeeds is passed to \<open>setHistory\<close> whatever it is. When the value
  is not an array of history items (\<open>null\<close>, an object, a number, an array with an element
  without \<open>results\<close>), or when the results of one of its items own a key that names a property
  of \<open>Object.prototype\<close>, the next render throws and startup does not complete.
\<close>

theorem startup_crashes_on_corrupt_copy_that_parses:
  assumes "str \<noteq> []" and "parse str = Some v"
    and "v = JsonOther \<or> (\<exists>items. v = JsonHistory items \<and> render_throws items)"
  shows "load_effect parse (Some str) = Some v \<and> startup parse stringify (Some str) = None"
  using assms by (auto simp: startup_def load_effect_def)

theorem startup_crashes_on_corrupt_copy_that_parses_witness:
  "''null'' \<noteq> []
   \<and> demo_parse ''null'' = Some JsonOther
   \<and> load_effect demo_parse (Some ''null'') = Some JsonOther
   \<and> startup demo_parse demo_stringify (Some ''null'') = None
   \<and> demo_parse ''{}'' = Some JsonOther
   \<and> startup demo_parse demo_stringify (Some ''{}'') = None
   \<and> demo_parse ''5'' = Some JsonOther
   \<and> startup demo_parse demo_stringify (Some ''5'') = None"
proof -
  have n: "''null'' \<noteq> []" "''{}'' \<noteq> []" "''5'' \<noteq> []" by simp_all
  have p: "demo_parse ''null'' = Some JsonOther" "demo_parse ''{}'' = Some JsonOther"
    "demo_parse ''5'' = Some JsonOther"
    by (simp_all add: demo_parse_def)
  note T = startup_crashes_on_corrupt_copy_that_parses
  from T[where parse = demo_parse and stringify = demo_stringify and v = JsonOther and str = "''null''"]
    T[where parse = demo_parse and stringify = demo_stringify and v = JsonOther and str = "''{}''"]
    T[where parse = demo_parse and stringify = demo_stringify and v = JsonOther and str = "''5''"]
    n p
  show ?thesis by simp
qed


end
